theory Spec2Isabelle
  imports Main "HOL-Library.Product_Lexorder" "HOL-Library.Multiset"
begin

section \<open>Shared notions\<close>

text \<open>
  A JavaScript \<^verbatim>\<open>Date\<close> is modelled by its number of milliseconds since the
  epoch. Every operation below receives the reading of the clock at the moment it is
  called as an argument \<open>now\<close>.
\<close>

type_synonym time = nat

subsection \<open>\<^verbatim>\<open>Array.prototype.sort\<close> with a comparator\<close>

text \<open>
  \<^verbatim>\<open>xs.sort((a, b) => ...)\<close> is a stable sort (ECMAScript 2019): elements the
  comparator calls equal keep their order. It is modelled by a stable insertion sort
  that is driven by the comparator itself: \<open>x\<close> goes in front of the first \<open>y\<close>
  with \<open>cmp x y \<le> 0\<close>.
\<close>

fun insert_sorted :: "('a \<Rightarrow> 'a \<Rightarrow> int) \<Rightarrow> 'a \<Rightarrow> 'a list \<Rightarrow> 'a list" where
  "insert_sorted cmp x [] = [x]"
| "insert_sorted cmp x (y # ys) =
     (if cmp x y \<le> 0 then x # y # ys else y # insert_sorted cmp x ys)"

definition array_sort :: "('a \<Rightarrow> 'a \<Rightarrow> int) \<Rightarrow> 'a list \<Rightarrow> 'a list" where
  "array_sort cmp xs = foldr (insert_sorted cmp) xs []"

section \<open>The client store: \<^verbatim>\<open>frontend/src/services/offlineDB.js\<close>\<close>

subsection \<open>Data\<close>

text \<open>
  The fields of a record that \<^verbatim>\<open>calculateSyncPriority\<close> reads. A field that is
  missing (\<^verbatim>\<open>undefined\<close>) is \<open>None\<close>; a triage level is whatever string the
  caller stored.
\<close>

record clinical =
  triageLevel :: "string option"
  emergencyActions :: "string list option"

record raw_record = clinical +
  soldierId :: string

text \<open>A value of the object store \<^verbatim>\<open>medical_records\<close> (key path \<^verbatim>\<open>id\<close>).\<close>

record local_record = raw_record +
  rec_id :: nat
  encrypted :: string
  synced :: bool
  syncAttempts :: nat
  syncPriority :: int
  lastSyncAttempt :: "time option"
  createdAt :: time
  updatedAt :: time

text \<open>A value of the object store \<^verbatim>\<open>sync_queue\<close> (key path \<^verbatim>\<open>id\<close>).\<close>

record queue_entry =
  entry_id :: nat
  entry_type :: string
  recordId :: nat
  entry_priority :: int
  entry_timestamp :: time
  entry_attempts :: nat
  entry_lastAttempt :: "time option"

text \<open>
  The database: each object store is the list of its values in ascending key order,
  together with the current number of its key generator (\<^verbatim>\<open>autoIncrement\<close>), and
  the names of the indexes that \<^verbatim>\<open>init\<close> created on \<^verbatim>\<open>sync_queue\<close>.
\<close>

record offline_db =
  medical_records :: "local_record list"
  medical_records_next :: nat
  sync_queue :: "queue_entry list"
  sync_queue_next :: nat
  sync_queue_indexes :: "string list"

datatype idb_error = NotFoundError

text \<open>
  \<^verbatim>\<open>init\<close> on a fresh browser profile: the upgrade callback runs from version 0
  and creates the stores; version 4 creates \<^verbatim>\<open>sync_queue\<close> with the two indexes
  \<^verbatim>\<open>priority\<close> and \<^verbatim>\<open>timestamp\<close> and no other.
\<close>

definition init_db :: offline_db where
  "init_db = \<lparr> medical_records = [], medical_records_next = 1,
               sync_queue = [], sync_queue_next = 1,
               sync_queue_indexes = [''priority'', ''timestamp''] \<rparr>"

text \<open>\<^verbatim>\<open>store.index(name)\<close> throws \<^verbatim>\<open>NotFoundError\<close> for a name that is no index.\<close>

definition store_index :: "offline_db \<Rightarrow> string \<Rightarrow> idb_error + string" where
  "store_index db name =
     (if name \<in> set (sync_queue_indexes db) then Inr name else Inl NotFoundError)"

subsection \<open>\<^verbatim>\<open>calculateSyncPriority\<close>\<close>

definition emergencyActionsPresent :: "'a clinical_scheme \<Rightarrow> bool" where
  "emergencyActionsPresent r =
     (case emergencyActions r of None \<Rightarrow> False | Some acts \<Rightarrow> length acts > 0)"

definition calculateSyncPriority :: "'a clinical_scheme \<Rightarrow> int" where
  "calculateSyncPriority r =
     (if triageLevel r = Some ''IMMEDIATE'' then 1
      else if emergencyActionsPresent r then 1
      else if triageLevel r = Some ''DELAYED'' then 2
      else 3)"

text \<open>
  The classifier as the specification words it, over the four triage levels and a
  fifth value for a level that is missing or unknown.
\<close>

datatype triage = IMMEDIATE | DELAYED | MINOR | EXPECTANT | UnknownTriage

fun spec_classify :: "triage \<Rightarrow> bool \<Rightarrow> int" where
  "spec_classify IMMEDIATE _ = 1"
| "spec_classify _ True = 1"
| "spec_classify DELAYED False = 2"
| "spec_classify _ False = 3"

definition triage_of :: "string option \<Rightarrow> triage" where
  "triage_of t =
     (if t = Some ''IMMEDIATE'' then IMMEDIATE
      else if t = Some ''DELAYED'' then DELAYED
      else if t = Some ''MINOR'' then MINOR
      else if t = Some ''EXPECTANT'' then EXPECTANT
      else UnknownTriage)"

subsection \<open>\<^verbatim>\<open>saveMedicalRecord\<close> and \<^verbatim>\<open>addToSyncQueue\<close>\<close>

text \<open>
  \<^verbatim>\<open>db.add('sync_queue', {...})\<close>: the store has \<^verbatim>\<open>autoIncrement\<close> and the
  value carries no key, so the key generator supplies a fresh key and the value is
  stored under it. Nothing is looked up first.
\<close>

definition addToSyncQueue :: "string \<Rightarrow> nat \<Rightarrow> int \<Rightarrow> time \<Rightarrow> offline_db \<Rightarrow> offline_db" where
  "addToSyncQueue ty rid prio now db =
     db\<lparr> sync_queue := sync_queue db @
            [\<lparr> entry_id = sync_queue_next db, entry_type = ty, recordId = rid,
               entry_priority = prio, entry_timestamp = now,
               entry_attempts = 0, entry_lastAttempt = None \<rparr>],
         sync_queue_next := Suc (sync_queue_next db) \<rparr>"

text \<open>
  \<^verbatim>\<open>encryptRecord\<close> is a parameter: the byte transform is opaque to the queue.
\<close>

definition saveMedicalRecord ::
  "(raw_record \<Rightarrow> string) \<Rightarrow> raw_record \<Rightarrow> time \<Rightarrow> offline_db \<Rightarrow> nat \<times> offline_db" where
  "saveMedicalRecord encryptRecord r now db =
     (let prio = calculateSyncPriority r;
          new_id = medical_records_next db;
          recordWithMetadata =
            \<lparr> triageLevel = triageLevel r, emergencyActions = emergencyActions r,
              soldierId = soldierId r, rec_id = new_id, encrypted = encryptRecord r,
              synced = False, syncAttempts = 0, syncPriority = prio,
              lastSyncAttempt = None, createdAt = now, updatedAt = now \<rparr>;
          db1 = db\<lparr> medical_records := medical_records db @ [recordWithMetadata],
                    medical_records_next := Suc new_id \<rparr>
      in (new_id, addToSyncQueue ''medical_record'' new_id prio now db1))"

text \<open>
  \<^verbatim>\<open>getMedicalRecords(soldierId)\<close> as the sync hook calls it, without options:
  the values of the \<^verbatim>\<open>soldierId\<close> index for that key, in key order.
\<close>

definition getMedicalRecords :: "string \<Rightarrow> offline_db \<Rightarrow> local_record list" where
  "getMedicalRecords sid db = filter (\<lambda>r. soldierId r = sid) (medical_records db)"

subsection \<open>\<^verbatim>\<open>getPendingSyncItems\<close>\<close>

definition compareEntries :: "queue_entry \<Rightarrow> queue_entry \<Rightarrow> int" where
  "compareEntries a b =
     (if entry_priority a \<noteq> entry_priority b then entry_priority a - entry_priority b
      else int (entry_timestamp a) - int (entry_timestamp b))"

text \<open>
  \<^verbatim>\<open>index.getAll()\<close> on the \<^verbatim>\<open>priority\<close> index yields every value, ordered by
  the index key and, for equal index keys, by primary key. The store is kept in primary
  key order, so this is a stable sort on the priority. A missing index makes
  \<^verbatim>\<open>store.index\<close> throw; the \<^verbatim>\<open>catch\<close> then returns the empty array.
\<close>

definition getPendingSyncItems :: "nat \<Rightarrow> offline_db \<Rightarrow> queue_entry list" where
  "getPendingSyncItems limit db =
     (case store_index db ''priority'' of
        Inl _ \<Rightarrow> []
      | Inr _ \<Rightarrow>
          (let items = sort_key entry_priority (sync_queue db)
           in take limit (array_sort compareEntries items)))"

subsection \<open>\<^verbatim>\<open>markAsSynced\<close>\<close>

datatype mark_log = MarkedAsSynced nat | FailedToMarkAsSynced idb_error

text \<open>
  First the record is read, flagged and written back (\<^verbatim>\<open>db.put\<close> resolves once its
  own transaction has committed). Then a second transaction on \<^verbatim>\<open>sync_queue\<close> asks for
  the index \<^verbatim>\<open>recordId\<close>, collects its values for the record and deletes each by key.
  An exception anywhere is caught and logged; what was written before it stays written.
\<close>

definition markAsSynced :: "nat \<Rightarrow> time \<Rightarrow> offline_db \<Rightarrow> mark_log \<times> offline_db" where
  "markAsSynced rid now db =
     (let db1 = (case find (\<lambda>r. rec_id r = rid) (medical_records db) of
                   None \<Rightarrow> db
                 | Some r \<Rightarrow>
                     db\<lparr> medical_records :=
                           map (\<lambda>x. if rec_id x = rid then r\<lparr> synced := True, updatedAt := now \<rparr> else x)
                             (medical_records db) \<rparr>)
      in case store_index db1 ''recordId'' of
           Inl e \<Rightarrow> (FailedToMarkAsSynced e, db1)
         | Inr _ \<Rightarrow>
             (let queueItems = filter (\<lambda>e. recordId e = rid) (sync_queue db1)
              in (MarkedAsSynced rid,
                  db1\<lparr> sync_queue :=
                        filter (\<lambda>e. entry_id e \<notin> set (map entry_id queueItems)) (sync_queue db1) \<rparr>)))"

section \<open>The client sync hook: \<^verbatim>\<open>frontend/src/hooks/useOfflineSync.js\<close>\<close>

text \<open>
  \<^verbatim>\<open>simulateAPISync\<close> either returns an object with a \<^verbatim>\<open>success\<close> flag or throws;
  which of the two is decided by a random number, so the outcome of each call is an
  argument of the model, given per queue entry.
\<close>

datatype api_outcome = ApiReturned bool | ApiThrew

record sync_hook =
  syncStatus :: string
  queuedRecords :: "queue_entry list"
  lastSync :: "time option"
  hook_isSyncing :: bool

text \<open>
  What one pass accumulates: the database, the two counters, and the record ids for which
  \<^verbatim>\<open>console.warn\<close> reported a record that was not found.
\<close>

record pass_state =
  pass_db :: offline_db
  successCount :: nat
  errorCount :: nat
  skipped :: "nat list"

definition idle_pass :: "offline_db \<Rightarrow> pass_state" where
  "idle_pass db = \<lparr> pass_db = db, successCount = 0, errorCount = 0, skipped = [] \<rparr>"

definition lookup_sid :: "string option \<Rightarrow> string" where
  "lookup_sid soldier = (case soldier of Some s \<Rightarrow> s | None \<Rightarrow> ''emergency-unknown'')"

text \<open>The body of the \<^verbatim>\<open>for\<close> loop of \<^verbatim>\<open>attemptSync\<close> for one pending item.\<close>

definition sync_entry ::
  "string option \<Rightarrow> (queue_entry \<Rightarrow> local_record \<Rightarrow> api_outcome) \<Rightarrow> time \<Rightarrow>
   queue_entry \<Rightarrow> pass_state \<Rightarrow> pass_state" where
  "sync_entry soldier api now item st =
     (case find (\<lambda>r. rec_id r = recordId item)
             (getMedicalRecords (lookup_sid soldier) (pass_db st)) of
        None \<Rightarrow> st\<lparr> skipped := skipped st @ [recordId item] \<rparr>
      | Some r \<Rightarrow>
          (case api item r of
             ApiThrew \<Rightarrow> st\<lparr> errorCount := errorCount st + 1 \<rparr>
           | ApiReturned ok \<Rightarrow>
               if ok
               then st\<lparr> pass_db := snd (markAsSynced (recordId item) now (pass_db st)),
                        successCount := successCount st + 1 \<rparr>
               else st\<lparr> errorCount := errorCount st + 1 \<rparr>))"

definition attemptSync ::
  "string option \<Rightarrow> (queue_entry \<Rightarrow> local_record \<Rightarrow> api_outcome) \<Rightarrow> time \<Rightarrow>
   sync_hook \<Rightarrow> offline_db \<Rightarrow> sync_hook \<times> pass_state" where
  "attemptSync soldier api now hk db =
     (if hook_isSyncing hk \<or> syncStatus hk \<noteq> ''online'' then (hk, idle_pass db)
      else
        (let pendingItems = getPendingSyncItems 5 db
         in if pendingItems = []
            then (hk\<lparr> lastSync := Some now, hook_isSyncing := False \<rparr>, idle_pass db)
            else
              (let st = fold (sync_entry soldier api now) pendingItems (idle_pass db)
               in (hk\<lparr> lastSync := Some now,
                       queuedRecords := getPendingSyncItems 10 (pass_db st),
                       hook_isSyncing := False \<rparr>, st))))"

section \<open>The server-side queue: class \<^verbatim>\<open>SyncManager\<close>\<close>

subsection \<open>Data\<close>

datatype item_status = StatusQueued | StatusRetrying | StatusSynced | StatusFailed

text \<open>
  A sync item. The record it carries is whatever value the caller queued:
  \<^verbatim>\<open>queueForSync\<close> checks nothing, so it may be \<^verbatim>\<open>null\<close> or \<^verbatim>\<open>undefined\<close>
  (\<open>None\<close>) or an object (\<open>Some\<close>). The id of the item comes from the clock and a
  random number, so it is an argument of \<^verbatim>\<open>queueForSync\<close> in the model.
\<close>

record 'r sync_item =
  item_id :: string
  item_record :: "'r option"
  priority :: int
  attempts :: int
  lastAttempt :: "time option"
  timestamp :: time
  status :: item_status
  item_error :: "string option"

text \<open>What the manager writes to the console, one constructor per message.\<close>

datatype log_event =
    LogQueued string int
  | LogStarting
  | LogStopped
  | LogQueueEmpty
  | LogProcessingBatch nat
  | LogSyncing string
  | LogSynced string
  | LogSyncFailed string string
  | LogPermanentFailure string string
  | LogFailureLogged string "string option" int int
  | LogBatchCompleted nat nat nat
  | LogManualSync
  | LogCleared nat
  | LogEmergency

text \<open>
  The fields of the class (\<open>syncInterval\<close> says whether a timer handle is held), and
  with them the two things its methods act on from outside the object: the collection
  behind the \<^verbatim>\<open>MedicalRecord\<close> model (\<open>'db\<close>) and the console.
\<close>

record ('r, 'db) sync_manager =
  syncQueue :: "'r sync_item list"
  isSyncing :: bool
  syncInterval :: bool
  maxRetries :: int
  syncBatchSize :: nat
  database :: 'db
  console :: "log_event list"

definition new_SyncManager :: "'db \<Rightarrow> ('r, 'db) sync_manager" where
  "new_SyncManager d =
     \<lparr> syncQueue = [], isSyncing = False, syncInterval = False, maxRetries = 3,
       syncBatchSize = 10, database = d, console = [] \<rparr>"

record batch_results =
  successful :: nat
  failed :: nat
  retried :: nat

definition say :: "log_event \<Rightarrow> ('r, 'db) sync_manager \<Rightarrow> ('r, 'db) sync_manager" where
  "say e m = m\<lparr> console := console m @ [e] \<rparr>"

subsection \<open>Starting and stopping the timer\<close>

definition startSyncProcess :: "('r, 'db) sync_manager \<Rightarrow> ('r, 'db) sync_manager" where
  "startSyncProcess m =
     (if isSyncing m then m
      else say LogStarting (m\<lparr> isSyncing := True \<rparr>)\<lparr> syncInterval := True \<rparr>)"

definition stopSyncProcess :: "('r, 'db) sync_manager \<Rightarrow> ('r, 'db) sync_manager" where
  "stopSyncProcess m = say LogStopped (m\<lparr> syncInterval := False, isSyncing := False \<rparr>)"

subsection \<open>\<^verbatim>\<open>queueForSync\<close>\<close>

definition compareItems :: "'r sync_item \<Rightarrow> 'r sync_item \<Rightarrow> int" where
  "compareItems a b =
     (if priority a \<noteq> priority b then priority a - priority b
      else int (timestamp a) - int (timestamp b))"

definition queueForSync ::
  "'r option \<Rightarrow> int \<Rightarrow> string \<Rightarrow> time \<Rightarrow> ('r, 'db) sync_manager \<Rightarrow> string \<times> ('r, 'db) sync_manager" where
  "queueForSync r prio sid now m =
     (let syncItem = \<lparr> item_id = sid, item_record = r, priority = prio, attempts = 0,
                       lastAttempt = None, timestamp = now, status = StatusQueued,
                       item_error = None \<rparr>;
          m1 = m\<lparr> syncQueue := array_sort compareItems (syncQueue m @ [syncItem]) \<rparr>;
          m2 = say (LogQueued sid prio) m1
      in (sid, if \<not> isSyncing m2 then startSyncProcess m2 else m2))"

subsection \<open>\<^verbatim>\<open>syncSingleItem\<close> and \<^verbatim>\<open>handleSyncFailure\<close>\<close>

text \<open>
  \<^verbatim>\<open>syncSingleItem\<close> writes its first message and then reads \<^verbatim>\<open>record._id\<close>, which
  throws a \<^verbatim>\<open>TypeError\<close> when the record is \<^verbatim>\<open>null\<close> or \<^verbatim>\<open>undefined\<close> (the model
  keeps the name of the exception for its message). Otherwise it looks the record up,
  updates or creates the stored document and saves it, all through the
  \<^verbatim>\<open>MedicalRecord\<close> model of the object mapper. The mapper is not part of the
  repository, so these calls are one parameter \<open>persist\<close>: it either throws an
  \<^verbatim>\<open>Error\<close> (\<open>Inl\<close> its message) or returns the collection as written.
\<close>

definition deliver ::
  "('r sync_item \<Rightarrow> 'db \<Rightarrow> string + 'db) \<Rightarrow> 'r sync_item \<Rightarrow> 'db \<Rightarrow> string + 'db" where
  "deliver persist syncItem d =
     (case item_record syncItem of
        None \<Rightarrow> Inl ''TypeError''
      | Some _ \<Rightarrow> persist syncItem d)"

text \<open>
  The result of \<^verbatim>\<open>syncSingleItem\<close> is the state reached and either the message of
  the exception or, on success, the item as the method left it.
\<close>

definition syncSingleItem ::
  "('r sync_item \<Rightarrow> 'db \<Rightarrow> string + 'db) \<Rightarrow> time \<Rightarrow> 'r sync_item \<Rightarrow> ('r, 'db) sync_manager \<Rightarrow>
   ('r, 'db) sync_manager \<times> (string + 'r sync_item)" where
  "syncSingleItem persist now syncItem m =
     (let m1 = say (LogSyncing (item_id syncItem)) m
      in case deliver persist syncItem (database m1) of
           Inl msg \<Rightarrow> (m1, Inl msg)
         | Inr d \<Rightarrow>
             (say (LogSynced (item_id syncItem)) (m1\<lparr> database := d \<rparr>),
              Inr (syncItem\<lparr> status := StatusSynced, lastAttempt := Some now \<rparr>)))"

text \<open>
  \<^verbatim>\<open>logSyncFailure\<close> builds its log entry from \<^verbatim>\<open>syncItem.record._id\<close> and
  \<^verbatim>\<open>syncItem.record.soldierId\<close> before it writes anything: for an item without a
  record it throws a \<^verbatim>\<open>TypeError\<close>. The second component of the result is the message
  of the exception the method ends with, if it ends with one.
\<close>

definition logSyncFailure ::
  "'r sync_item \<Rightarrow> ('r, 'db) sync_manager \<Rightarrow> ('r, 'db) sync_manager \<times> string option" where
  "logSyncFailure syncItem m =
     (case item_record syncItem of
        None \<Rightarrow> (m, Some ''TypeError'')
      | Some _ \<Rightarrow>
          (say (LogFailureLogged (item_id syncItem) (item_error syncItem)
                  (attempts syncItem) (priority syncItem)) m, None))"

definition handleSyncFailure ::
  "'r sync_item \<Rightarrow> string \<Rightarrow> time \<Rightarrow> ('r, 'db) sync_manager \<Rightarrow>
   ('r, 'db) sync_manager \<times> string option" where
  "handleSyncFailure syncItem msg now m =
     (let m1 = say (LogPermanentFailure (item_id syncItem) msg) m;
          failedItem = syncItem\<lparr> status := StatusFailed, item_error := Some msg,
                                lastAttempt := Some now \<rparr>
      in logSyncFailure failedItem m1)"

subsection \<open>\<^verbatim>\<open>processSyncBatch\<close>\<close>

text \<open>The four assignments of the retry branch, before the item is pushed back.\<close>

definition retry_item :: "time \<Rightarrow> 'r sync_item \<Rightarrow> 'r sync_item" where
  "retry_item now item =
     item\<lparr> attempts := attempts item + 1, lastAttempt := Some now,
           status := StatusRetrying, priority := min (priority item + 1) 1 \<rparr>"

text \<open>
  The body of the \<^verbatim>\<open>for\<close> loop for one item of the batch. The \<^verbatim>\<open>try\<close> covers
  \<^verbatim>\<open>syncSingleItem\<close> only: \<^verbatim>\<open>handleSyncFailure\<close> is awaited inside the \<^verbatim>\<open>catch\<close>
  block, after \<^verbatim>\<open>results.failed++\<close>, and an exception it ends with leaves the loop.
  The second component of the result is that exception, if there is one.
\<close>

definition process_item ::
  "('r sync_item \<Rightarrow> 'db \<Rightarrow> string + 'db) \<Rightarrow> time \<Rightarrow> 'r sync_item \<Rightarrow>
   ('r, 'db) sync_manager \<times> batch_results \<Rightarrow>
   (('r, 'db) sync_manager \<times> batch_results) \<times> string option" where
  "process_item persist now item st =
     (case syncSingleItem persist now item (fst st) of
        (m1, Inr _) \<Rightarrow> ((m1, (snd st)\<lparr> successful := successful (snd st) + 1 \<rparr>), None)
      | (m1, Inl msg) \<Rightarrow>
          (let m2 = say (LogSyncFailed (item_id item) msg) m1
           in if attempts item < maxRetries m2
              then ((m2\<lparr> syncQueue := syncQueue m2 @ [retry_item now item] \<rparr>,
                     (snd st)\<lparr> retried := retried (snd st) + 1 \<rparr>), None)
              else ((fst (handleSyncFailure item msg now m2),
                     (snd st)\<lparr> failed := failed (snd st) + 1 \<rparr>),
                    snd (handleSyncFailure item msg now m2))))"

text \<open>
  The \<^verbatim>\<open>for\<close> loop over the batch: it goes on to the next item only when the body
  ended without an exception. When the body throws, the items of the batch that were
  not reached are neither delivered nor pushed back: the batch was spliced off the
  array before the loop.
\<close>

fun process_batch ::
  "('r sync_item \<Rightarrow> 'db \<Rightarrow> string + 'db) \<Rightarrow> time \<Rightarrow> 'r sync_item list \<Rightarrow>
   ('r, 'db) sync_manager \<times> batch_results \<Rightarrow>
   (('r, 'db) sync_manager \<times> batch_results) \<times> string option" where
  "process_batch persist now [] st = (st, None)"
| "process_batch persist now (item # items) st =
     (case snd (process_item persist now item st) of
        Some err \<Rightarrow> (fst (process_item persist now item st), Some err)
      | None \<Rightarrow> process_batch persist now items (fst (process_item persist now item st)))"

text \<open>
  \<^verbatim>\<open>processSyncBatch\<close> returns the state it leaves and, when its promise is rejected,
  the message of the exception; the summary line is written only when the loop ran to
  its end.
\<close>

definition processSyncBatch ::
  "('r sync_item \<Rightarrow> 'db \<Rightarrow> string + 'db) \<Rightarrow> time \<Rightarrow> ('r, 'db) sync_manager \<Rightarrow>
   ('r, 'db) sync_manager \<times> string option" where
  "processSyncBatch persist now m =
     (if length (syncQueue m) = 0 then (stopSyncProcess (say LogQueueEmpty m), None)
      else
        (let batch = take (syncBatchSize m) (syncQueue m);
             m1 = say (LogProcessingBatch (length batch))
                    (m\<lparr> syncQueue := drop (syncBatchSize m) (syncQueue m) \<rparr>);
             results0 = \<lparr> successful = 0, failed = 0, retried = 0 \<rparr>;
             done_st = fst (process_batch persist now batch (m1, results0))
         in case snd (process_batch persist now batch (m1, results0)) of
              None \<Rightarrow>
                (say (LogBatchCompleted (successful (snd done_st)) (failed (snd done_st))
                        (retried (snd done_st))) (fst done_st), None)
            | Some err \<Rightarrow> (fst done_st, Some err)))"

subsection \<open>Status, manual trigger, clearing, emergency mode\<close>

definition getQueuePriorityBreakdown :: "('r, 'db) sync_manager \<Rightarrow> (int \<rightharpoonup> nat)" where
  "getQueuePriorityBreakdown m =
     fold (\<lambda>item breakdown.
             breakdown(priority item \<mapsto>
               (case breakdown (priority item) of None \<Rightarrow> 0 | Some c \<Rightarrow> c) + 1))
       (syncQueue m) [1 \<mapsto> 0, 2 \<mapsto> 0, 3 \<mapsto> 0]"

definition compareLastAttemptDesc :: "'r sync_item \<Rightarrow> 'r sync_item \<Rightarrow> int" where
  "compareLastAttemptDesc a b =
     int (case lastAttempt b of None \<Rightarrow> 0 | Some t \<Rightarrow> t)
     - int (case lastAttempt a of None \<Rightarrow> 0 | Some t \<Rightarrow> t)"

definition getLastSyncTime :: "('r, 'db) sync_manager \<Rightarrow> time option" where
  "getLastSyncTime m =
     (if length (syncQueue m) = 0 then None
      else (case array_sort compareLastAttemptDesc
                   (filter (\<lambda>item. status item = StatusSynced) (syncQueue m)) of
              [] \<Rightarrow> None
            | item # _ \<Rightarrow> lastAttempt item))"

record sync_status =
  status_isSyncing :: bool
  queueLength :: nat
  queuePriorities :: "int \<rightharpoonup> nat"
  status_lastSync :: "time option"

definition getSyncStatus :: "('r, 'db) sync_manager \<Rightarrow> sync_status" where
  "getSyncStatus m =
     \<lparr> status_isSyncing = isSyncing m, queueLength = length (syncQueue m),
       queuePriorities = getQueuePriorityBreakdown m, status_lastSync = getLastSyncTime m \<rparr>"

definition forceSync ::
  "('r sync_item \<Rightarrow> 'db \<Rightarrow> string + 'db) \<Rightarrow> time \<Rightarrow> ('r, 'db) sync_manager \<Rightarrow>
   ('r, 'db) sync_manager \<times> string option" where
  "forceSync persist now m = processSyncBatch persist now (say LogManualSync m)"

definition clearQueue :: "('r, 'db) sync_manager \<Rightarrow> ('r, 'db) sync_manager" where
  "clearQueue m =
     (let queueSize = length (syncQueue m)
      in say (LogCleared queueSize) (m\<lparr> syncQueue := [] \<rparr>))"

definition comparePriority :: "'r sync_item \<Rightarrow> 'r sync_item \<Rightarrow> int" where
  "comparePriority a b = priority a - priority b"

definition activateEmergencySync ::
  "('r sync_item \<Rightarrow> 'db \<Rightarrow> string + 'db) \<Rightarrow> time \<Rightarrow> ('r, 'db) sync_manager \<Rightarrow>
   ('r, 'db) sync_manager" where
  "activateEmergencySync persist now m =
     (let m1 = say LogEmergency m;
          m2 = m1\<lparr> syncQueue := map (\<lambda>item. item\<lparr> priority := 1 \<rparr>) (syncQueue m1) \<rparr>;
          m3 = m2\<lparr> syncQueue := array_sort comparePriority (syncQueue m2) \<rparr>
      in fst (processSyncBatch persist now m3))"

text \<open>
  What happens to the manager between two calls of its interface: the timer fires, or
  a caller triggers a pass or the emergency mode. Each event carries what the outside
  world decides at that moment: the behaviour of the collection and the clock. A
  rejected pass leaves the manager in the state the pass had reached, and nothing in
  the class handles the rejection: the timer callback and \<^verbatim>\<open>activateEmergencySync\<close>
  drop the promise, \<^verbatim>\<open>forceSync\<close> passes the rejection on to its caller. Whether the
  host ends the process on an unhandled rejection depends on how it is started and is
  not modelled: the driver goes on from that state, so that what holds of all its runs
  holds of the runs the host lets happen.
\<close>

datatype ('r, 'db) driver_event =
    TimerTick "'r sync_item \<Rightarrow> 'db \<Rightarrow> string + 'db" time
  | ForceSync "'r sync_item \<Rightarrow> 'db \<Rightarrow> string + 'db" time
  | EmergencySync "'r sync_item \<Rightarrow> 'db \<Rightarrow> string + 'db" time

fun driver_step :: "('r, 'db) driver_event \<Rightarrow> ('r, 'db) sync_manager \<Rightarrow> ('r, 'db) sync_manager" where
  "driver_step (TimerTick persist now) m = fst (processSyncBatch persist now m)"
| "driver_step (ForceSync persist now) m = fst (forceSync persist now m)"
| "driver_step (EmergencySync persist now) m = activateEmergencySync persist now m"

definition run_driver ::
  "('r, 'db) driver_event list \<Rightarrow> ('r, 'db) sync_manager \<Rightarrow> ('r, 'db) sync_manager" where
  "run_driver evs m = fold driver_step evs m"

section \<open>Notions used to state the properties\<close>

subsection \<open>Ordering keys\<close>

text \<open>The pair an entry or an item is ordered by: its priority, then its timestamp.\<close>

definition entry_key :: "queue_entry \<Rightarrow> int \<times> nat" where
  "entry_key e = (entry_priority e, entry_timestamp e)"

definition item_key :: "'r sync_item \<Rightarrow> int \<times> nat" where
  "item_key it = (priority it, timestamp it)"

subsection \<open>An entry whose record is missing\<close>

text \<open>
  What a pass preserves for a queue entry \<open>e\<close> whose record the lookup for soldier
  \<open>sid\<close> does not find: the schema, the entry itself (the queue only ever loses entries
  other than \<open>e\<close>), and the absence of the record.
\<close>

definition orphan_kept :: "offline_db \<Rightarrow> string \<Rightarrow> queue_entry \<Rightarrow> pass_state \<Rightarrow> bool" where
  "orphan_kept db sid e st \<longleftrightarrow>
     sync_queue_indexes (pass_db st) = sync_queue_indexes db
     \<and> (\<exists>P. P e \<and> sync_queue (pass_db st) = filter P (sync_queue db))
     \<and> (\<forall>r \<in> set (medical_records (pass_db st)). soldierId r = sid \<longrightarrow> rec_id r \<noteq> recordId e)"

subsection \<open>Reading the console\<close>

text \<open>
  The number of failed deliveries of an item is the number of \<^verbatim>\<open>Sync failed for item\<close>
  messages that name it; a permanent failure is a \<^verbatim>\<open>Permanent sync failure\<close> message;
  a delivery is a \<^verbatim>\<open>Syncing record\<close> message, written when \<^verbatim>\<open>syncSingleItem\<close> is
  entered.
\<close>

fun is_sync_failed :: "string \<Rightarrow> log_event \<Rightarrow> bool" where
  "is_sync_failed sid (LogSyncFailed s _) = (s = sid)"
| "is_sync_failed sid _ = False"

fun is_permanent_failure :: "string \<Rightarrow> log_event \<Rightarrow> bool" where
  "is_permanent_failure sid (LogPermanentFailure s _) = (s = sid)"
| "is_permanent_failure sid _ = False"

fun is_delivery :: "log_event \<Rightarrow> bool" where
  "is_delivery (LogSyncing _) = True"
| "is_delivery _ = False"

definition failedDeliveries :: "string \<Rightarrow> ('r, 'db) sync_manager \<Rightarrow> nat" where
  "failedDeliveries sid m = length (filter (is_sync_failed sid) (console m))"

definition permanentFailures :: "string \<Rightarrow> ('r, 'db) sync_manager \<Rightarrow> nat" where
  "permanentFailures sid m = length (filter (is_permanent_failure sid) (console m))"

definition deliveries :: "('r, 'db) sync_manager \<Rightarrow> log_event list" where
  "deliveries m = filter is_delivery (console m)"

subsection \<open>Following one item through the passes\<close>

text \<open>
  \<open>later\<close> is a later state of the queued item \<open>earlier\<close> (same id, same record,
  same enqueue timestamp) and is at least as urgent.
\<close>

definition descends :: "'r sync_item \<Rightarrow> 'r sync_item \<Rightarrow> bool" where
  "descends later earlier \<longleftrightarrow>
     item_id later = item_id earlier \<and> item_record later = item_record earlier
     \<and> timestamp later = timestamp earlier \<and> priority later \<le> priority earlier"

text \<open>The collection behaviour that an event of the driver carries.\<close>

fun event_persist :: "('r, 'db) driver_event \<Rightarrow> 'r sync_item \<Rightarrow> 'db \<Rightarrow> string + 'db" where
  "event_persist (TimerTick persist _) = persist"
| "event_persist (ForceSync persist _) = persist"
| "event_persist (EmergencySync persist _) = persist"

text \<open>The queued items that bear a given sync id.\<close>

definition with_id :: "string \<Rightarrow> 'r sync_item list \<Rightarrow> 'r sync_item list" where
  "with_id sid items = filter (\<lambda>it. item_id it = sid) items"

text \<open>
  The account kept for the item \<open>sid\<close> while a pass runs (\<open>pending\<close> is the rest of
  the batch): either the item is still held once, in the array or in the batch, it has
  failed as often as its attempt count says and nothing permanent is logged; or it is
  held nowhere, it has failed \<open>n + 1\<close> times and one permanent failure is logged.
  \<open>c0\<close> and \<open>p0\<close> are the two counts at the start.
\<close>

definition retry_ledger ::
  "string \<Rightarrow> nat \<Rightarrow> nat \<Rightarrow> int \<Rightarrow> ('r, 'db) sync_manager \<Rightarrow> 'r sync_item list \<Rightarrow> bool" where
  "retry_ledger sid c0 p0 n m pending \<longleftrightarrow>
     maxRetries m = n \<and>
     ((\<exists>x. with_id sid (syncQueue m) @ with_id sid pending = [x]
          \<and> 0 \<le> attempts x \<and> attempts x \<le> n
          \<and> int (failedDeliveries sid m) = int c0 + attempts x
          \<and> permanentFailures sid m = p0)
      \<or> (with_id sid (syncQueue m) @ with_id sid pending = []
          \<and> int (failedDeliveries sid m) = int c0 + n + 1
          \<and> permanentFailures sid m = Suc p0))"

section \<open>Passes as tasks of the event loop\<close>

text \<open>
  \<^verbatim>\<open>processSyncBatch\<close> is an \<^verbatim>\<open>async\<close> method: it runs without interruption up to an
  \<^verbatim>\<open>await\<close>, and while it waits there for the collection the event loop runs other
  callbacks, among them further calls of \<^verbatim>\<open>processSyncBatch\<close> from the timer or from
  \<^verbatim>\<open>forceSync\<close>. The method is therefore cut at the one \<^verbatim>\<open>await\<close> that waits for
  the outside world, the delivery in \<^verbatim>\<open>syncSingleItem\<close>. The \<^verbatim>\<open>await\<close> on
  \<^verbatim>\<open>handleSyncFailure\<close> waits for nothing outside the process: it only writes to
  the console or throws; it is not cut. A pass that waits for a delivery is described
  by the item it is delivering, the items of its batch it has not started, and its
  counters.
\<close>

record 'r active_pass =
  current :: "'r sync_item"
  remaining :: "'r sync_item list"
  tally :: batch_results

text \<open>The manager together with the passes that are waiting for a delivery.\<close>

record ('r, 'db) event_loop =
  manager :: "('r, 'db) sync_manager"
  suspended :: "'r active_pass list"

text \<open>
  The part of the loop body after the \<^verbatim>\<open>await\<close>: what \<^verbatim>\<open>process_item\<close> does once the
  message \<^verbatim>\<open>Syncing record\<close> is written and the delivery has settled. As there, the
  second component of the result is the exception that leaves the loop, if any.
\<close>

definition complete_item ::
  "('r sync_item \<Rightarrow> 'db \<Rightarrow> string + 'db) \<Rightarrow> time \<Rightarrow> 'r sync_item \<Rightarrow>
   ('r, 'db) sync_manager \<times> batch_results \<Rightarrow>
   (('r, 'db) sync_manager \<times> batch_results) \<times> string option" where
  "complete_item persist now item st =
     (case deliver persist item (database (fst st)) of
        Inr d \<Rightarrow>
          ((say (LogSynced (item_id item)) ((fst st)\<lparr> database := d \<rparr>),
            (snd st)\<lparr> successful := successful (snd st) + 1 \<rparr>), None)
      | Inl msg \<Rightarrow>
          (let m2 = say (LogSyncFailed (item_id item) msg) (fst st)
           in if attempts item < maxRetries m2
              then ((m2\<lparr> syncQueue := syncQueue m2 @ [retry_item now item] \<rparr>,
                     (snd st)\<lparr> retried := retried (snd st) + 1 \<rparr>), None)
              else ((fst (handleSyncFailure item msg now m2),
                     (snd st)\<lparr> failed := failed (snd st) + 1 \<rparr>),
                    snd (handleSyncFailure item msg now m2))))"

text \<open>
  A call of \<^verbatim>\<open>processSyncBatch\<close> up to its first \<^verbatim>\<open>await\<close>: on an empty queue it
  stops the timer and returns; otherwise it splices its batch off the array, enters
  \<^verbatim>\<open>syncSingleItem\<close> for the first item and waits. With \<^verbatim>\<open>syncBatchSize\<close> 0 the
  batch is empty and the call ends at once.
\<close>

definition invoke :: "('r, 'db) event_loop \<Rightarrow> ('r, 'db) event_loop" where
  "invoke s =
     (let m = manager s
      in if length (syncQueue m) = 0
         then s\<lparr> manager := stopSyncProcess (say LogQueueEmpty m) \<rparr>
         else
           (let batch = take (syncBatchSize m) (syncQueue m);
                m1 = say (LogProcessingBatch (length batch))
                       (m\<lparr> syncQueue := drop (syncBatchSize m) (syncQueue m) \<rparr>)
            in case batch of
                 [] \<Rightarrow> s\<lparr> manager := say (LogBatchCompleted 0 0 0) m1 \<rparr>
               | item # items \<Rightarrow>
                   s\<lparr> manager := say (LogSyncing (item_id item)) m1,
                      suspended := suspended s @
                        [\<lparr> current = item, remaining = items,
                           tally = \<lparr> successful = 0, failed = 0, retried = 0 \<rparr> \<rparr>] \<rparr>))"

text \<open>
  The delivery that pass \<open>i\<close> waits for settles: the pass handles the outcome and
  either enters \<^verbatim>\<open>syncSingleItem\<close> for its next item and waits again, or writes its
  summary and ends, or ends with the exception of \<^verbatim>\<open>handleSyncFailure\<close>, without a
  summary and without the items it had not started.
\<close>

definition settle ::
  "nat \<Rightarrow> ('r sync_item \<Rightarrow> 'db \<Rightarrow> string + 'db) \<Rightarrow> time \<Rightarrow> ('r, 'db) event_loop \<Rightarrow>
   ('r, 'db) event_loop" where
  "settle i persist now s =
     (if i < length (suspended s)
      then
        (let p = suspended s ! i;
             st = fst (complete_item persist now (current p) (manager s, tally p))
         in case snd (complete_item persist now (current p) (manager s, tally p)) of
              Some err \<Rightarrow>
                s\<lparr> manager := fst st,
                   suspended := take i (suspended s) @ drop (Suc i) (suspended s) \<rparr>
            | None \<Rightarrow>
                (case remaining p of
                   [] \<Rightarrow>
                     s\<lparr> manager := say (LogBatchCompleted (successful (snd st)) (failed (snd st))
                                       (retried (snd st))) (fst st),
                        suspended := take i (suspended s) @ drop (Suc i) (suspended s) \<rparr>
                 | item # items \<Rightarrow>
                     s\<lparr> manager := say (LogSyncing (item_id item)) (fst st),
                        suspended := (suspended s)[i := \<lparr> current = item, remaining = items,
                                                         tally = snd st \<rparr>] \<rparr>))
      else s)"

text \<open>
  The events of the loop. The timer callback only exists while the interval is set;
  \<^verbatim>\<open>forceSync\<close> writes its message and calls \<^verbatim>\<open>processSyncBatch\<close>.
\<close>

datatype ('r, 'db) loop_event =
    TimerFires
  | ForceSyncCalled
  | Settles nat "'r sync_item \<Rightarrow> 'db \<Rightarrow> string + 'db" time

fun loop_step :: "('r, 'db) loop_event \<Rightarrow> ('r, 'db) event_loop \<Rightarrow> ('r, 'db) event_loop" where
  "loop_step TimerFires s = (if syncInterval (manager s) then invoke s else s)"
| "loop_step ForceSyncCalled s = invoke (s\<lparr> manager := say LogManualSync (manager s) \<rparr>)"
| "loop_step (Settles i persist now) s = settle i persist now s"

definition run_loop :: "('r, 'db) loop_event list \<Rightarrow> ('r, 'db) event_loop \<Rightarrow> ('r, 'db) event_loop" where
  "run_loop evs s = fold loop_step evs s"

text \<open>The items that the waiting passes hold, and the manager with no pass waiting.\<close>

definition held :: "('r, 'db) event_loop \<Rightarrow> 'r sync_item list" where
  "held s = concat (map (\<lambda>p. current p # remaining p) (suspended s))"

definition quiet :: "('r, 'db) sync_manager \<Rightarrow> ('r, 'db) event_loop" where
  "quiet m = \<lparr> manager = m, suspended = [] \<rparr>"

text \<open>The sync ids of all items, queued or held by a pass, with their multiplicities.\<close>

definition all_ids :: "('r, 'db) event_loop \<Rightarrow> string multiset" where
  "all_ids s = mset (map item_id (syncQueue (manager s))) + mset (map item_id (held s))"

section \<open>Concrete states\<close>

text \<open>A collection that rejects every write.\<close>

definition always_down :: "'r sync_item \<Rightarrow> 'db \<Rightarrow> string + 'db" where
  "always_down it d = Inl ''unreachable''"

text \<open>A fresh manager with one record queued at time 10 under the given priority.\<close>

definition one_queued :: "int \<Rightarrow> (nat, unit) sync_manager" where
  "one_queued prio = snd (queueForSync (Some 7) prio ''sync_a'' 10 (new_SyncManager ()))"

text \<open>A second record queued at time 11 with priority 2, next to the first with priority 3.\<close>

definition two_queued :: "(nat, unit) sync_manager" where
  "two_queued = snd (queueForSync (Some 8) 2 ''sync_b'' 11 (one_queued 3))"

text \<open>
  An item queued without a record at time 10 with priority 1, and a record queued
  behind it at time 11 with priority 3.
\<close>

definition recordless_queued :: "(nat, unit) sync_manager" where
  "recordless_queued =
     snd (queueForSync (Some 8) 3 ''sync_r'' 11
       (snd (queueForSync None 1 ''sync_n'' 10 (new_SyncManager ()))))"

text \<open>Eleven records queued one after the other with priority 3, at times 1 to 11.\<close>

definition eleven_queued :: "(nat, unit) sync_manager" where
  "eleven_queued =
     fold (\<lambda>n m. snd (queueForSync (Some n) 3 (replicate n CHR ''a'') n m)) [1..<12] (new_SyncManager ())"

text \<open>Four records queued with priorities 3, 1, 2, 1, all within the same millisecond.\<close>

definition four_queued :: "(nat, unit) sync_manager" where
  "four_queued =
     snd (queueForSync (Some 4) 1 ''sync_d'' 10
       (snd (queueForSync (Some 3) 2 ''sync_c'' 10
          (snd (queueForSync (Some 2) 1 ''sync_b'' 10
             (snd (queueForSync (Some 1) 3 ''sync_a'' 10 (new_SyncManager ()))))))))"

text \<open>The client hook when the browser is online and no pass is running.\<close>

definition online_hook :: sync_hook where
  "online_hook = \<lparr> syncStatus = ''online'', queuedRecords = [], lastSync = None,
                   hook_isSyncing = False \<rparr>"

text \<open>A remote end that accepts every record.\<close>

definition api_accepts :: "queue_entry \<Rightarrow> local_record \<Rightarrow> api_outcome" where
  "api_accepts item r = ApiReturned True"

text \<open>A queue entry for record 7 in a database that holds no record.\<close>

definition orphan_db :: offline_db where
  "orphan_db = addToSyncQueue ''medical_record'' 7 3 10 init_db"

text \<open>Four entries enqueued with priorities 3, 1, 2, 1, all within the same millisecond.\<close>

definition four_enqueued :: offline_db where
  "four_enqueued =
     addToSyncQueue ''medical_record'' 4 1 10
       (addToSyncQueue ''medical_record'' 3 2 10
          (addToSyncQueue ''medical_record'' 2 1 10
             (addToSyncQueue ''medical_record'' 1 3 10 init_db)))"

text \<open>A casualty with an emergency action, saved into a fresh database at time 100.\<close>

definition wounded :: raw_record where
  "wounded = \<lparr> triageLevel = Some ''IMMEDIATE'', emergencyActions = Some [''tourniquet''],
               soldierId = ''S-1'' \<rparr>"

definition one_saved :: offline_db where
  "one_saved = snd (saveMedicalRecord (\<lambda>_. ''ciphertext'') wounded 100 init_db)"

section \<open>Facts about sorting\<close>

lemma insert_sorted_insort_key:
  assumes "\<And>x y. cmp x y \<le> 0 \<longleftrightarrow> f x \<le> f y"
  shows "insert_sorted cmp x ys = insort_key f x ys"
  by (induction ys) (simp_all add: assms)

lemma array_sort_sort_key:
  assumes "\<And>x y. cmp x y \<le> 0 \<longleftrightarrow> f x \<le> f y"
  shows "array_sort cmp xs = sort_key f xs"
  unfolding array_sort_def sort_key_def
  by (induction xs) (simp_all add: insert_sorted_insort_key [OF assms])

lemma sort_key_refine:
  fixes f :: "'a \<Rightarrow> 'k::linorder" and g :: "'a \<Rightarrow> 'j::linorder"
  assumes fg: "\<And>x y. f x = f y \<Longrightarrow> g x = g y"
  shows "sort_key f (sort_key g xs) = sort_key f xs"
proof (rule sym, rule properties_for_sort_key)
  show "mset (sort_key f (sort_key g xs)) = mset xs" by simp
  show "sorted (map f (sort_key f (sort_key g xs)))" by simp
next
  fix k assume "k \<in> set (sort_key f (sort_key g xs))"
  have narrow: "filter (\<lambda>x. f x = f k) zs = filter (\<lambda>x. f x = f k) (filter (\<lambda>x. g x = g k) zs)" for zs
    by (induction zs) (auto dest: fg)
  have flip: "filter (\<lambda>x. f k = f x) zs = filter (\<lambda>x. f x = f k) zs" for zs
    by (induction zs) auto
  have "filter (\<lambda>x. f x = f k) (sort_key f (sort_key g xs))
      = filter (\<lambda>x. f x = f k) (sort_key g xs)"
    by (rule sort_key_stable)
  also have "\<dots> = filter (\<lambda>x. f x = f k) (filter (\<lambda>x. g x = g k) (sort_key g xs))"
    by (rule narrow)
  also have "\<dots> = filter (\<lambda>x. f x = f k) (filter (\<lambda>x. g x = g k) xs)"
    by (simp only: sort_key_stable)
  also have "\<dots> = filter (\<lambda>x. f x = f k) xs"
    by (rule narrow [symmetric])
  finally show "filter (\<lambda>x. f k = f x) (sort_key f (sort_key g xs)) = filter (\<lambda>x. f k = f x) xs"
    by (simp only: flip)
qed

lemma in_take_filter:
  "e \<in> set (take n zs) \<Longrightarrow> P e \<Longrightarrow> e \<in> set (take n (filter P zs))"
proof (induction zs arbitrary: n)
  case Nil
  then show ?case by simp
next
  case (Cons z zs)
  show ?case
  proof (cases n)
    case 0
    with Cons.prems show ?thesis by simp
  next
    case (Suc k)
    show ?thesis
    proof (cases "e = z")
      case True
      with Cons.prems Suc show ?thesis by simp
    next
      case False
      with Cons.prems Suc have "e \<in> set (take k zs)" by simp
      then have ih: "e \<in> set (take k (filter P zs))"
        using Cons.prems(2) by (rule Cons.IH)
      have "set (take k (filter P zs)) \<subseteq> set (take (Suc k) (filter P zs))"
        by (rule set_take_subset_set_take) simp
      with ih Suc show ?thesis by auto
    qed
  qed
qed

lemma mset_insert_sorted: "mset (insert_sorted cmp x ys) = add_mset x (mset ys)"
  by (induction ys) simp_all

lemma mset_array_sort: "mset (array_sort cmp xs) = mset xs"
  unfolding array_sort_def by (induction xs) (simp_all add: mset_insert_sorted)

lemma set_insert_sorted: "set (insert_sorted cmp x ys) = insert x (set ys)"
  by (induction ys) auto

lemma set_array_sort: "set (array_sort cmp xs) = set xs"
  unfolding array_sort_def by (induction xs) (simp_all add: set_insert_sorted)

section \<open>The loop over a batch\<close>

subsection \<open>One item\<close>

lemma say_simps:
  "syncQueue (say e m) = syncQueue m"
  "isSyncing (say e m) = isSyncing m"
  "syncInterval (say e m) = syncInterval m"
  "maxRetries (say e m) = maxRetries m"
  "syncBatchSize (say e m) = syncBatchSize m"
  "database (say e m) = database m"
  "console (say e m) = console m @ [e]"
  by (simp_all add: say_def)

lemma handleSyncFailure_fields:
  "syncQueue (fst (handleSyncFailure item msg now m)) = syncQueue m"
  "maxRetries (fst (handleSyncFailure item msg now m)) = maxRetries m"
  "syncBatchSize (fst (handleSyncFailure item msg now m)) = syncBatchSize m"
  "database (fst (handleSyncFailure item msg now m)) = database m"
  "snd (handleSyncFailure item msg now m) = None \<longleftrightarrow> item_record item \<noteq> None"
  by (cases "item_record item";
      simp add: handleSyncFailure_def logSyncFailure_def say_simps Let_def)+

lemma handleSyncFailure_console:
  "console (fst (handleSyncFailure item msg now m))
   = console m @ LogPermanentFailure (item_id item) msg #
       (if item_record item = None then []
        else [LogFailureLogged (item_id item) (Some msg) (attempts item) (priority item)])"
  by (cases "item_record item")
     (simp_all add: handleSyncFailure_def logSyncFailure_def say_simps Let_def)

lemma deliver_without_record:
  "item_record item = None \<Longrightarrow> isl (deliver persist item d)"
  by (simp add: deliver_def)

lemma process_item_fields:
  "maxRetries (fst (fst (process_item persist now item st))) = maxRetries (fst st)"
  "syncBatchSize (fst (fst (process_item persist now item st))) = syncBatchSize (fst st)"
  "syncQueue (fst (fst (process_item persist now item st)))
     = syncQueue (fst st) @
         (if isl (deliver persist item (database (fst st))) \<and> attempts item < maxRetries (fst st)
          then [retry_item now item] else [])"
  "database (fst (fst (process_item persist now item st)))
     = (case deliver persist item (database (fst st)) of Inl _ \<Rightarrow> database (fst st) | Inr d \<Rightarrow> d)"
  by (cases "deliver persist item (database (fst st))";
      simp add: process_item_def syncSingleItem_def handleSyncFailure_fields say_simps Let_def)+

text \<open>
  The body of the loop ends with an exception exactly for an item without a record
  whose retries are spent.
\<close>

lemma process_item_thrown:
  "snd (process_item persist now item st) = None
   \<longleftrightarrow> (item_record item = None \<longrightarrow> attempts item < maxRetries (fst st))"
proof (cases "deliver persist item (database (fst st))")
  case (Inl msg)
  then show ?thesis
    by (simp add: process_item_def syncSingleItem_def handleSyncFailure_fields say_simps Let_def)
next
  case (Inr d)
  then have "item_record item \<noteq> None"
    by (auto simp: deliver_def split: option.splits)
  with Inr show ?thesis
    by (auto simp: process_item_def syncSingleItem_def say_simps Let_def)
qed

lemma process_item_deliveries:
  "deliveries (fst (fst (process_item persist now item st)))
   = deliveries (fst st) @ [LogSyncing (item_id item)]"
  by (cases "deliver persist item (database (fst st))")
     (simp_all add: process_item_def syncSingleItem_def handleSyncFailure_console
        say_simps Let_def deliveries_def)

subsection \<open>The batch\<close>

lemma process_batch_fields:
  "maxRetries (fst (fst (process_batch persist now batch st))) = maxRetries (fst st)"
  "syncBatchSize (fst (fst (process_batch persist now batch st))) = syncBatchSize (fst st)"
  by (induction batch arbitrary: st) (simp_all add: process_item_fields split: option.split)

text \<open>
  The loop runs to its end exactly when no item of the batch is without a record
  with its retries spent.
\<close>

lemma process_batch_thrown:
  "snd (process_batch persist now batch st) = None
   \<longleftrightarrow> (\<forall>b \<in> set batch. item_record b = None \<longrightarrow> attempts b < maxRetries (fst st))"
proof (induction batch arbitrary: st)
  case Nil
  show ?case by simp
next
  case (Cons item batch)
  show ?case
  proof (cases "snd (process_item persist now item st)")
    case None
    with process_item_thrown [of persist now item st]
    have ok: "item_record item = None \<longrightarrow> attempts item < maxRetries (fst st)" by simp
    from None ok Cons.IH [of "fst (process_item persist now item st)"] show ?thesis
      by (simp add: process_item_fields)
  next
    case (Some err)
    with process_item_thrown [of persist now item st]
    have "\<not> (item_record item = None \<longrightarrow> attempts item < maxRetries (fst st))" by simp
    with Some show ?thesis by simp
  qed
qed

lemma process_batch_queue:
  "\<exists>ys. syncQueue (fst (fst (process_batch persist now batch st))) = syncQueue (fst st) @ ys
      \<and> set ys \<subseteq> retry_item now ` set batch
      \<and> (snd (process_batch persist now batch st) = None \<longrightarrow>
          (\<forall>b \<in> set batch. (\<forall>d. isl (deliver persist b d)) \<and> attempts b < maxRetries (fst st)
              \<longrightarrow> retry_item now b \<in> set ys))"
proof (induction batch arbitrary: st)
  case Nil
  then show ?case by simp
next
  case (Cons item batch)
  let ?st' = "fst (process_item persist now item st)"
  let ?zs = "if isl (deliver persist item (database (fst st))) \<and> attempts item < maxRetries (fst st)
          then [retry_item now item] else []"
  show ?case
  proof (cases "snd (process_item persist now item st)")
    case (Some err)
    then have q: "syncQueue (fst (fst (process_batch persist now (item # batch) st)))
        = syncQueue (fst st) @ ?zs"
      and "snd (process_batch persist now (item # batch) st) \<noteq> None"
      by (simp_all add: process_item_fields)
    then have req: "snd (process_batch persist now (item # batch) st) = None \<longrightarrow>
        (\<forall>b \<in> set (item # batch).
            (\<forall>d. isl (deliver persist b d)) \<and> attempts b < maxRetries (fst st)
            \<longrightarrow> retry_item now b \<in> set ?zs)"
      by blast
    have sub: "set ?zs \<subseteq> retry_item now ` set (item # batch)" by auto
    from q sub req show ?thesis by (intro exI [of _ ?zs] conjI)
  next
    case None
    from Cons.IH [of ?st'] obtain ys where ys:
      "syncQueue (fst (fst (process_batch persist now batch ?st'))) = syncQueue (fst ?st') @ ys"
      "set ys \<subseteq> retry_item now ` set batch"
      "snd (process_batch persist now batch ?st') = None \<longrightarrow>
         (\<forall>b \<in> set batch. (\<forall>d. isl (deliver persist b d)) \<and> attempts b < maxRetries (fst ?st')
            \<longrightarrow> retry_item now b \<in> set ys)"
      by auto
    have q: "syncQueue (fst (fst (process_batch persist now (item # batch) st)))
        = syncQueue (fst st) @ (?zs @ ys)"
      using ys(1) None by (simp add: process_item_fields)
    have sub: "set (?zs @ ys) \<subseteq> retry_item now ` set (item # batch)"
      using ys(2) by auto
    have req: "snd (process_batch persist now (item # batch) st) = None \<longrightarrow>
        (\<forall>b \<in> set (item # batch).
            (\<forall>d. isl (deliver persist b d)) \<and> attempts b < maxRetries (fst st)
            \<longrightarrow> retry_item now b \<in> set (?zs @ ys))"
      using ys(3) None by (auto simp: process_item_fields)
    from q sub req show ?thesis by (intro exI [of _ "?zs @ ys"] conjI)
  qed
qed

text \<open>The items that a pass enters \<^verbatim>\<open>syncSingleItem\<close> for are a prefix of its batch.\<close>

lemma process_batch_deliveries:
  "\<exists>k. deliveries (fst (fst (process_batch persist now batch st)))
         = deliveries (fst st) @ map (\<lambda>it. LogSyncing (item_id it)) (take k batch)
      \<and> (snd (process_batch persist now batch st) = None \<longrightarrow> k = length batch)"
proof (induction batch arbitrary: st)
  case Nil
  then show ?case by simp
next
  case (Cons item batch)
  let ?st' = "fst (process_item persist now item st)"
  show ?case
  proof (cases "snd (process_item persist now item st)")
    case (Some err)
    then have a: "deliveries (fst (fst (process_batch persist now (item # batch) st)))
        = deliveries (fst st) @ map (\<lambda>it. LogSyncing (item_id it)) (take (Suc 0) (item # batch))"
      and b: "snd (process_batch persist now (item # batch) st) \<noteq> None"
      by (simp_all add: process_item_deliveries)
    from b have c: "snd (process_batch persist now (item # batch) st) = None
        \<longrightarrow> Suc 0 = length (item # batch)"
      by (auto simp del: process_batch.simps)
    from a c show ?thesis by (intro exI [of _ "Suc 0"] conjI)
  next
    case None
    from Cons.IH [of ?st'] obtain k where k:
      "deliveries (fst (fst (process_batch persist now batch ?st')))
         = deliveries (fst ?st') @ map (\<lambda>it. LogSyncing (item_id it)) (take k batch)"
      "snd (process_batch persist now batch ?st') = None \<longrightarrow> k = length batch"
      by auto
    have a: "deliveries (fst (fst (process_batch persist now (item # batch) st)))
        = deliveries (fst st) @ map (\<lambda>it. LogSyncing (item_id it)) (take (Suc k) (item # batch))"
      using k(1) None by (simp add: process_item_deliveries)
    have c: "snd (process_batch persist now (item # batch) st) = None
        \<longrightarrow> Suc k = length (item # batch)"
      using k(2) None by simp
    from a c show ?thesis by (intro exI [of _ "Suc k"] conjI)
  qed
qed

subsection \<open>The pass\<close>

lemma empty_pass:
  assumes "syncQueue m = []"
  shows "processSyncBatch persist now m
       = (m\<lparr> syncInterval := False, isSyncing := False,
             console := console m @ [LogQueueEmpty, LogStopped] \<rparr>, None)"
  using assms by (simp add: processSyncBatch_def stopSyncProcess_def say_def)

text \<open>
  A pass on a queue that is not empty, read off the loop over its batch: the summary
  line is all that the pass adds to what the loop leaves.
\<close>

lemma processSyncBatch_pass:
  assumes "syncQueue m \<noteq> []"
  shows "snd (processSyncBatch persist now m)
       = snd (process_batch persist now (take (syncBatchSize m) (syncQueue m))
           (say (LogProcessingBatch (length (take (syncBatchSize m) (syncQueue m))))
              (m\<lparr> syncQueue := drop (syncBatchSize m) (syncQueue m) \<rparr>),
            \<lparr> successful = 0, failed = 0, retried = 0 \<rparr>))"
    and "syncQueue (fst (processSyncBatch persist now m))
       = syncQueue (fst (fst (process_batch persist now (take (syncBatchSize m) (syncQueue m))
           (say (LogProcessingBatch (length (take (syncBatchSize m) (syncQueue m))))
              (m\<lparr> syncQueue := drop (syncBatchSize m) (syncQueue m) \<rparr>),
            \<lparr> successful = 0, failed = 0, retried = 0 \<rparr>))))"
    and "maxRetries (fst (processSyncBatch persist now m)) = maxRetries m"
    and "syncBatchSize (fst (processSyncBatch persist now m)) = syncBatchSize m"
    and "deliveries (fst (processSyncBatch persist now m))
       = deliveries (fst (fst (process_batch persist now (take (syncBatchSize m) (syncQueue m))
           (say (LogProcessingBatch (length (take (syncBatchSize m) (syncQueue m))))
              (m\<lparr> syncQueue := drop (syncBatchSize m) (syncQueue m) \<rparr>),
            \<lparr> successful = 0, failed = 0, retried = 0 \<rparr>))))"
    and "failedDeliveries sid (fst (processSyncBatch persist now m))
       = failedDeliveries sid (fst (fst (process_batch persist now (take (syncBatchSize m) (syncQueue m))
           (say (LogProcessingBatch (length (take (syncBatchSize m) (syncQueue m))))
              (m\<lparr> syncQueue := drop (syncBatchSize m) (syncQueue m) \<rparr>),
            \<lparr> successful = 0, failed = 0, retried = 0 \<rparr>))))"
    and "permanentFailures sid (fst (processSyncBatch persist now m))
       = permanentFailures sid (fst (fst (process_batch persist now (take (syncBatchSize m) (syncQueue m))
           (say (LogProcessingBatch (length (take (syncBatchSize m) (syncQueue m))))
              (m\<lparr> syncQueue := drop (syncBatchSize m) (syncQueue m) \<rparr>),
            \<lparr> successful = 0, failed = 0, retried = 0 \<rparr>))))"
  using assms
  by (simp_all add: processSyncBatch_def Let_def say_simps process_batch_fields
        deliveries_def failedDeliveries_def permanentFailures_def split: option.split)

lemma processSyncBatch_fields:
  "maxRetries (fst (processSyncBatch persist now m)) = maxRetries m"
  "syncBatchSize (fst (processSyncBatch persist now m)) = syncBatchSize m"
  by (cases "syncQueue m = []"; simp add: empty_pass processSyncBatch_pass)+

text \<open>
  The promise of a pass is rejected exactly when its batch holds an item without a
  record whose retries are spent.
\<close>

lemma processSyncBatch_thrown:
  "snd (processSyncBatch persist now m) = None
   \<longleftrightarrow> (\<forall>b \<in> set (take (syncBatchSize m) (syncQueue m)).
          item_record b = None \<longrightarrow> attempts b < maxRetries m)"
  by (cases "syncQueue m = []")
     (simp_all add: empty_pass processSyncBatch_pass process_batch_thrown say_simps)

text \<open>
  A pass that ends early. An item without a record is queued ahead of an item with
  one, and the collection is down. Three passes push both back. In the fourth the item
  without a record has its retries spent: its permanent failure is written,
  \<^verbatim>\<open>logSyncFailure\<close> throws, and the pass is rejected before it reaches the other item.
  That item was spliced off the array with the batch and is queued no more, after three
  failed deliveries and with no permanent failure of its own.
\<close>

lemma recordless_item_ends_pass:
  "map item_record (syncQueue recordless_queued) = [None, Some 8]
   \<and> map item_id (syncQueue
        (run_driver [TimerTick always_down 20, TimerTick always_down 30, TimerTick always_down 40]
           recordless_queued)) = [''sync_n'', ''sync_r'']
   \<and> map attempts (syncQueue
        (run_driver [TimerTick always_down 20, TimerTick always_down 30, TimerTick always_down 40]
           recordless_queued)) = [3, 3]
   \<and> snd (processSyncBatch always_down 50
        (run_driver [TimerTick always_down 20, TimerTick always_down 30, TimerTick always_down 40]
           recordless_queued)) = Some ''TypeError''
   \<and> syncQueue (fst (processSyncBatch always_down 50
        (run_driver [TimerTick always_down 20, TimerTick always_down 30, TimerTick always_down 40]
           recordless_queued))) = []
   \<and> permanentFailures ''sync_n'' (fst (processSyncBatch always_down 50
        (run_driver [TimerTick always_down 20, TimerTick always_down 30, TimerTick always_down 40]
           recordless_queued))) = 1
   \<and> failedDeliveries ''sync_r'' (fst (processSyncBatch always_down 50
        (run_driver [TimerTick always_down 20, TimerTick always_down 30, TimerTick always_down 40]
           recordless_queued))) = 3
   \<and> permanentFailures ''sync_r'' (fst (processSyncBatch always_down 50
        (run_driver [TimerTick always_down 20, TimerTick always_down 30, TimerTick always_down 40]
           recordless_queued))) = 0
   \<and> deliveries (fst (processSyncBatch always_down 50
        (run_driver [TimerTick always_down 20, TimerTick always_down 30, TimerTick always_down 40]
           recordless_queued)))
     = [LogSyncing ''sync_n'', LogSyncing ''sync_r'', LogSyncing ''sync_n'', LogSyncing ''sync_r'',
        LogSyncing ''sync_n'', LogSyncing ''sync_r'', LogSyncing ''sync_n'']"
  by code_simp

lemma processSyncBatch_queue:
  "\<exists>ys. syncQueue (fst (processSyncBatch persist now m)) = drop (syncBatchSize m) (syncQueue m) @ ys
      \<and> set ys \<subseteq> retry_item now ` set (take (syncBatchSize m) (syncQueue m))
      \<and> (snd (processSyncBatch persist now m) = None \<longrightarrow>
          (\<forall>b \<in> set (take (syncBatchSize m) (syncQueue m)).
              (\<forall>d. isl (deliver persist b d)) \<and> attempts b < maxRetries m
              \<longrightarrow> retry_item now b \<in> set ys))"
proof (cases "syncQueue m = []")
  case True
  then show ?thesis by (simp add: empty_pass)
next
  case False
  let ?m1 = "say (LogProcessingBatch (length (take (syncBatchSize m) (syncQueue m))))
                    (m\<lparr> syncQueue := drop (syncBatchSize m) (syncQueue m) \<rparr>)"
  let ?st = "(?m1, \<lparr> successful = 0, failed = 0, retried = 0 \<rparr>)"
  from process_batch_queue [of persist now "take (syncBatchSize m) (syncQueue m)" ?st]
  show ?thesis
    by (simp add: processSyncBatch_pass [OF False] say_simps)
qed

lemma processSyncBatch_deliveries:
  "\<exists>k. deliveries (fst (processSyncBatch persist now m))
         = deliveries m @
             map (\<lambda>it. LogSyncing (item_id it)) (take k (take (syncBatchSize m) (syncQueue m)))
      \<and> (snd (processSyncBatch persist now m) = None \<longrightarrow>
           k = length (take (syncBatchSize m) (syncQueue m)))"
proof (cases "syncQueue m = []")
  case True
  then show ?thesis by (simp add: empty_pass deliveries_def)
next
  case False
  let ?m1 = "say (LogProcessingBatch (length (take (syncBatchSize m) (syncQueue m))))
                    (m\<lparr> syncQueue := drop (syncBatchSize m) (syncQueue m) \<rparr>)"
  let ?st = "(?m1, \<lparr> successful = 0, failed = 0, retried = 0 \<rparr>)"
  have "deliveries ?m1 = deliveries m"
    by (simp add: deliveries_def say_def)
  with process_batch_deliveries [of persist now "take (syncBatchSize m) (syncQueue m)" ?st]
  show ?thesis
    by (simp add: processSyncBatch_pass [OF False])
qed

section \<open>The priority classifier\<close>

lemma spec_classify_range: "spec_classify t e \<in> {1, 2, 3}"
  by (cases t; cases e) simp_all

text \<open>
  Claim C9. \<^verbatim>\<open>calculateSyncPriority\<close> is a function of the triage level and of the
  presence of emergency actions alone, it has a value on every input, and that value is
  the one the specification's rule gives: 1 for IMMEDIATE, else 1 when emergency actions
  are present, else 2 for DELAYED, else 3 (MINOR, EXPECTANT, a missing level and any
  unknown string alike); the value always lies in {1, 2, 3}.
\<close>

theorem calculateSyncPriority_classifies:
  "calculateSyncPriority r = spec_classify (triage_of (triageLevel r)) (emergencyActionsPresent r)
   \<and> calculateSyncPriority r \<in> {1, 2, 3}
   \<and> (if triageLevel r = Some ''IMMEDIATE'' then calculateSyncPriority r = 1
      else if emergencyActionsPresent r then calculateSyncPriority r = 1
      else if triageLevel r = Some ''DELAYED'' then calculateSyncPriority r = 2
      else calculateSyncPriority r = 3)"
proof -
  have eq: "calculateSyncPriority r
      = spec_classify (triage_of (triageLevel r)) (emergencyActionsPresent r)"
    by (cases "emergencyActionsPresent r") (simp_all add: calculateSyncPriority_def triage_of_def)
  have rng: "calculateSyncPriority r \<in> {1, 2, 3}"
    unfolding eq by (rule spec_classify_range)
  have rule: "(if triageLevel r = Some ''IMMEDIATE'' then calculateSyncPriority r = 1
      else if emergencyActionsPresent r then calculateSyncPriority r = 1
      else if triageLevel r = Some ''DELAYED'' then calculateSyncPriority r = 2
      else calculateSyncPriority r = 3)"
    by (simp add: calculateSyncPriority_def)
  from eq rng rule show ?thesis by blast
qed

section \<open>The client queue\<close>

subsection \<open>Pending items\<close>

lemma compareEntries_key: "compareEntries a b \<le> 0 \<longleftrightarrow> entry_key a \<le> entry_key b"
  by (auto simp: compareEntries_def entry_key_def)

lemma getPendingSyncItems_sort_key:
  assumes "''priority'' \<in> set (sync_queue_indexes db)"
  shows "getPendingSyncItems limit db = take limit (sort_key entry_key (sync_queue db))"
proof -
  have "array_sort compareEntries (sort_key entry_priority (sync_queue db))
      = sort_key entry_key (sort_key entry_priority (sync_queue db))"
    by (rule array_sort_sort_key) (rule compareEntries_key)
  also have "\<dots> = sort_key entry_key (sync_queue db)"
    by (rule sort_key_refine) (simp add: entry_key_def)
  finally show ?thesis
    using assms by (simp add: getPendingSyncItems_def store_index_def)
qed

lemma compareItems_key: "compareItems a b \<le> 0 \<longleftrightarrow> item_key a \<le> item_key b"
  by (auto simp: compareItems_def item_key_def)

lemma queueForSync_syncQueue:
  "syncQueue (snd (queueForSync r prio sid now m))
   = sort_key item_key (syncQueue m @
       [\<lparr> item_id = sid, item_record = r, priority = prio, attempts = 0, lastAttempt = None,
          timestamp = now, status = StatusQueued, item_error = None \<rparr>])"
proof -
  have "array_sort compareItems xs = sort_key item_key xs" for xs :: "'a sync_item list"
    by (rule array_sort_sort_key) (rule compareItems_key)
  then show ?thesis
    by (simp add: queueForSync_def Let_def say_def startSyncProcess_def)
qed

text \<open>
  Claim C6, as amended. On a database whose \<^verbatim>\<open>sync_queue\<close> has its \<^verbatim>\<open>priority\<close>
  index, \<^verbatim>\<open>getPendingSyncItems(limit)\<close> returns the first \<open>limit\<close> entries of the
  whole queue sorted, at the time of the call, by priority and then timestamp, both
  ascending; entries that agree on both keep their insertion order. On the server,
  \<^verbatim>\<open>queueForSync\<close> leaves the array in that order, and \<^verbatim>\<open>processSyncBatch\<close> claims
  the first \<^verbatim>\<open>syncBatchSize\<close> items of the array as it stands and delivers them in
  the order of the array: nothing is sorted when a batch is claimed. It delivers the
  whole batch when no item of the batch is without a record with its retries spent;
  otherwise the pass stops at the first such item, and what it has delivered is the
  batch up to that item.
\<close>

theorem getPendingSyncItems_ordered:
  assumes "''priority'' \<in> set (sync_queue_indexes db)"
  shows "getPendingSyncItems limit db = take limit (sort_key entry_key (sync_queue db))
       \<and> length (getPendingSyncItems limit db) = min limit (length (sync_queue db))
       \<and> sorted (map entry_key (getPendingSyncItems limit db))
       \<and> filter (\<lambda>e. entry_key e = k) (sort_key entry_key (sync_queue db))
           = filter (\<lambda>e. entry_key e = k) (sync_queue db)
       \<and> sorted (map item_key (syncQueue (snd (queueForSync r prio sid now m))))
       \<and> (\<exists>k. deliveries (fst (processSyncBatch persist now m))
                = deliveries m @
                    map (\<lambda>it. LogSyncing (item_id it))
                      (take k (take (syncBatchSize m) (syncQueue m))))
       \<and> ((\<forall>b \<in> set (take (syncBatchSize m) (syncQueue m)).
              item_record b = None \<longrightarrow> attempts b < maxRetries m) \<longrightarrow>
            deliveries (fst (processSyncBatch persist now m))
              = deliveries m @
                  map (\<lambda>it. LogSyncing (item_id it)) (take (syncBatchSize m) (syncQueue m)))"
proof -
  have eq: "getPendingSyncItems limit db = take limit (sort_key entry_key (sync_queue db))"
    using assms by (rule getPendingSyncItems_sort_key)
  have len: "length (getPendingSyncItems limit db) = min limit (length (sync_queue db))"
    unfolding eq by (simp add: min.commute)
  have "sorted (take limit (map entry_key (sort_key entry_key (sync_queue db))))"
    by (rule sorted_wrt_take) simp
  then have srt: "sorted (map entry_key (getPendingSyncItems limit db))"
    unfolding eq by (simp add: take_map)
  have stable: "filter (\<lambda>e. entry_key e = k) (sort_key entry_key (sync_queue db))
           = filter (\<lambda>e. entry_key e = k) (sync_queue db)"
    by (rule sort_key_stable)
  have srv: "sorted (map item_key (syncQueue (snd (queueForSync r prio sid now m))))"
    unfolding queueForSync_syncQueue by simp
  from processSyncBatch_deliveries [of persist now m] obtain k where k:
    "deliveries (fst (processSyncBatch persist now m))
       = deliveries m @
           map (\<lambda>it. LogSyncing (item_id it)) (take k (take (syncBatchSize m) (syncQueue m)))"
    "snd (processSyncBatch persist now m) = None \<longrightarrow>
       k = length (take (syncBatchSize m) (syncQueue m))"
    by auto
  have whole: "(\<forall>b \<in> set (take (syncBatchSize m) (syncQueue m)).
              item_record b = None \<longrightarrow> attempts b < maxRetries m) \<longrightarrow>
            deliveries (fst (processSyncBatch persist now m))
              = deliveries m @
                  map (\<lambda>it. LogSyncing (item_id it)) (take (syncBatchSize m) (syncQueue m))"
  proof
    assume "\<forall>b \<in> set (take (syncBatchSize m) (syncQueue m)).
              item_record b = None \<longrightarrow> attempts b < maxRetries m"
    then have "snd (processSyncBatch persist now m) = None"
      by (simp add: processSyncBatch_thrown)
    with k(2) have "k = length (take (syncBatchSize m) (syncQueue m))"
      by (rule mp)
    then have "take k (take (syncBatchSize m) (syncQueue m))
        = take (syncBatchSize m) (syncQueue m)"
      by (simp only: take_all order_refl)
    with k(1) show "deliveries (fst (processSyncBatch persist now m))
              = deliveries m @
                  map (\<lambda>it. LogSyncing (item_id it)) (take (syncBatchSize m) (syncQueue m))"
      by (simp only:)
  qed
  from k(1) have pre: "\<exists>k. deliveries (fst (processSyncBatch persist now m))
                = deliveries m @
                    map (\<lambda>it. LogSyncing (item_id it))
                      (take k (take (syncBatchSize m) (syncQueue m)))"
    by (rule exI)
  from eq len srt stable srv pre whole show ?thesis by (intro conjI)
qed

theorem getPendingSyncItems_ordered_witness:
  "''priority'' \<in> set (sync_queue_indexes four_enqueued)
   \<and> map entry_priority (sync_queue four_enqueued) = [3, 1, 2, 1]
   \<and> map entry_id (sync_queue four_enqueued) = [1, 2, 3, 4]
   \<and> map entry_id (getPendingSyncItems 4 four_enqueued) = [2, 4, 3, 1]
   \<and> map entry_id (getPendingSyncItems 2 four_enqueued) = [2, 4]
   \<and> sorted (map entry_key (getPendingSyncItems 4 four_enqueued))
   \<and> map (\<lambda>it. (item_record it, priority it)) (syncQueue four_queued)
       = [(Some 2, 1), (Some 4, 1), (Some 3, 2), (Some 1, 3)]
   \<and> map item_id (take (syncBatchSize four_queued) (syncQueue four_queued))
       = [''sync_b'', ''sync_d'', ''sync_c'', ''sync_a'']
   \<and> deliveries (fst (processSyncBatch always_down 20 four_queued))
       = [LogSyncing ''sync_b'', LogSyncing ''sync_d'', LogSyncing ''sync_c'', LogSyncing ''sync_a'']"
proof -
  have h: "''priority'' \<in> set (sync_queue_indexes four_enqueued)" by code_simp
  have a: "map entry_priority (sync_queue four_enqueued) = [3, 1, 2, 1]" by code_simp
  have b: "map entry_id (sync_queue four_enqueued) = [1, 2, 3, 4]" by code_simp
  have c: "map entry_id (getPendingSyncItems 4 four_enqueued) = [2, 4, 3, 1]" by code_simp
  have d: "map entry_id (getPendingSyncItems 2 four_enqueued) = [2, 4]" by code_simp
  have f: "map (\<lambda>it. (item_record it, priority it)) (syncQueue four_queued)
       = [(Some 2, 1), (Some 4, 1), (Some 3, 2), (Some 1, 3)]" by code_simp
  have g: "\<forall>b \<in> set (take (syncBatchSize four_queued) (syncQueue four_queued)).
      item_record b = None \<longrightarrow> attempts b < maxRetries four_queued" by code_simp
  have i: "map item_id (take (syncBatchSize four_queued) (syncQueue four_queued))
       = [''sync_b'', ''sync_d'', ''sync_c'', ''sync_a'']" by code_simp
  have j: "deliveries four_queued = []" by code_simp
  from getPendingSyncItems_ordered
         [OF h, where limit = 4 and m = four_queued and persist = always_down and now = 20] g
  have e: "sorted (map entry_key (getPendingSyncItems 4 four_enqueued))"
    and dl: "deliveries (fst (processSyncBatch always_down 20 four_queued))
       = deliveries four_queued @
           map (\<lambda>it. LogSyncing (item_id it))
             (take (syncBatchSize four_queued) (syncQueue four_queued))"
    by blast+
  from dl have "deliveries (fst (processSyncBatch always_down 20 four_queued))
       = deliveries four_queued @
           map LogSyncing (map item_id (take (syncBatchSize four_queued) (syncQueue four_queued)))"
    by (simp add: comp_def)
  then have k: "deliveries (fst (processSyncBatch always_down 20 four_queued))
       = [LogSyncing ''sync_b'', LogSyncing ''sync_d'', LogSyncing ''sync_c'', LogSyncing ''sync_a'']"
    unfolding i j by simp
  from h a b c d e f i k show ?thesis by blast
qed

text \<open>
  The order is not re-evaluated when the server claims a batch. Eleven items of priority
  3 are queued; the first pass takes ten of them, every delivery fails, and the ten are
  pushed back with priority 1 behind the eleventh. The next batch is the first ten of
  that array: it starts with the item of priority 3 and leaves out one of priority 1.
\<close>

theorem splice_order_counterexample:
  "syncBatchSize eleven_queued = 10
   \<and> map item_record (syncQueue eleven_queued)
       = [Some 1, Some 2, Some 3, Some 4, Some 5, Some 6, Some 7, Some 8, Some 9, Some 10, Some 11]
   \<and> map priority (syncQueue eleven_queued) = [3, 3, 3, 3, 3, 3, 3, 3, 3, 3, 3]
   \<and> map item_record
        (take (syncBatchSize eleven_queued)
           (syncQueue (fst (processSyncBatch always_down 100 eleven_queued))))
     = [Some 11, Some 1, Some 2, Some 3, Some 4, Some 5, Some 6, Some 7, Some 8, Some 9]
   \<and> map priority
        (take (syncBatchSize eleven_queued)
           (syncQueue (fst (processSyncBatch always_down 100 eleven_queued))))
     = [3, 1, 1, 1, 1, 1, 1, 1, 1, 1]
   \<and> \<not> sorted (map item_key (take (syncBatchSize eleven_queued)
           (syncQueue (fst (processSyncBatch always_down 100 eleven_queued)))))"
  by code_simp

subsection \<open>Enqueueing the same record again\<close>

lemma fold_addToSyncQueue:
  "\<exists>new. sync_queue (fold (\<lambda>(prio, now). addToSyncQueue ty rid prio now) calls db)
            = sync_queue db @ new
         \<and> map recordId new = replicate (length calls) rid
         \<and> map entry_priority new = map fst calls"
proof (induction calls arbitrary: db)
  case Nil
  then show ?case by simp
next
  case (Cons c calls)
  obtain prio now where c: "c = (prio, now)" by (cases c)
  from Cons.IH [of "addToSyncQueue ty rid prio now db"]
  obtain new where new:
    "sync_queue (fold (\<lambda>(prio, now). addToSyncQueue ty rid prio now) calls
        (addToSyncQueue ty rid prio now db))
      = sync_queue (addToSyncQueue ty rid prio now db) @ new"
    "map recordId new = replicate (length calls) rid"
    "map entry_priority new = map fst calls"
    by blast
  let ?e = "\<lparr> entry_id = sync_queue_next db, entry_type = ty, recordId = rid,
              entry_priority = prio, entry_timestamp = now,
              entry_attempts = 0, entry_lastAttempt = None \<rparr>"
  have "sync_queue (fold (\<lambda>(prio, now). addToSyncQueue ty rid prio now) (c # calls) db)
      = sync_queue db @ (?e # new)"
    using new(1) c by (simp add: addToSyncQueue_def)
  moreover have "map recordId (?e # new) = replicate (length (c # calls)) rid"
    using new(2) by simp
  moreover have "map entry_priority (?e # new) = map fst (c # calls)"
    using new(3) c by simp
  ultimately show ?case by blast
qed

text \<open>
  Claim C4, as amended. Every call of \<^verbatim>\<open>addToSyncQueue\<close> appends one entry with a
  fresh key and changes no entry that is already there; after any sequence of calls for
  one record id the queue holds as many more entries for that id as there were calls,
  each with the priority of its own call. \<^verbatim>\<open>queueForSync\<close> likewise adds exactly one
  item to the items already queued.
\<close>

theorem enqueue_always_appends:
  "sync_queue (addToSyncQueue ty rid prio now db)
     = sync_queue db @
         [\<lparr> entry_id = sync_queue_next db, entry_type = ty, recordId = rid,
            entry_priority = prio, entry_timestamp = now,
            entry_attempts = 0, entry_lastAttempt = None \<rparr>]
   \<and> (\<exists>new. sync_queue (fold (\<lambda>(prio, now). addToSyncQueue ty rid prio now) calls db)
               = sync_queue db @ new
            \<and> map recordId new = replicate (length calls) rid
            \<and> map entry_priority new = map fst calls)
   \<and> length (filter (\<lambda>e. recordId e = rid)
        (sync_queue (fold (\<lambda>(prio, now). addToSyncQueue ty rid prio now) calls db)))
     = length (filter (\<lambda>e. recordId e = rid) (sync_queue db)) + length calls
   \<and> mset (syncQueue (snd (queueForSync r p sid t m)))
     = mset (syncQueue m) +
         {# \<lparr> item_id = sid, item_record = r, priority = p, attempts = 0, lastAttempt = None,
              timestamp = t, status = StatusQueued, item_error = None \<rparr> #}"
proof -
  from fold_addToSyncQueue [of ty rid calls db]
  obtain new where new:
    "sync_queue (fold (\<lambda>(prio, now). addToSyncQueue ty rid prio now) calls db) = sync_queue db @ new"
    "map recordId new = replicate (length calls) rid"
    "map entry_priority new = map fst calls"
    by blast
  have "filter (\<lambda>e. recordId e = rid) new = new"
  proof (rule filter_True)
    show "\<forall>x\<in>set new. recordId x = rid"
    proof
      fix x assume "x \<in> set new"
      then have "recordId x \<in> set (map recordId new)" by simp
      with new(2) show "recordId x = rid" by simp
    qed
  qed
  moreover have "length new = length calls"
    using new(2) by (metis length_map length_replicate)
  ultimately have cnt: "length (filter (\<lambda>e. recordId e = rid)
        (sync_queue (fold (\<lambda>(prio, now). addToSyncQueue ty rid prio now) calls db)))
     = length (filter (\<lambda>e. recordId e = rid) (sync_queue db)) + length calls"
    by (simp add: new(1))
  have one: "sync_queue (addToSyncQueue ty rid prio now db)
     = sync_queue db @
         [\<lparr> entry_id = sync_queue_next db, entry_type = ty, recordId = rid,
            entry_priority = prio, entry_timestamp = now,
            entry_attempts = 0, entry_lastAttempt = None \<rparr>]"
    by (simp add: addToSyncQueue_def)
  have srv: "mset (syncQueue (snd (queueForSync r p sid t m)))
     = mset (syncQueue m) +
         {# \<lparr> item_id = sid, item_record = r, priority = p, attempts = 0, lastAttempt = None,
              timestamp = t, status = StatusQueued, item_error = None \<rparr> #}"
    by (simp add: queueForSync_syncQueue)
  from one new cnt srv show ?thesis by blast
qed

text \<open>
  Two calls for record 7, the second more urgent: two entries, the first still at
  priority 3.
\<close>

theorem enqueue_twice_counterexample:
  "map recordId
     (sync_queue (addToSyncQueue ''medical_record'' 7 1 20
                   (addToSyncQueue ''medical_record'' 7 3 10 init_db))) = [7, 7]
   \<and> map entry_priority
       (sync_queue (addToSyncQueue ''medical_record'' 7 1 20
                     (addToSyncQueue ''medical_record'' 7 3 10 init_db))) = [3, 1]
   \<and> map item_record
       (syncQueue (snd (queueForSync (Some (7::nat)) 1 ''b'' 20
                        (snd (queueForSync (Some 7) 3 ''a'' 10 (new_SyncManager ())))))) = [Some 7, Some 7]
   \<and> map priority
       (syncQueue (snd (queueForSync (Some (7::nat)) 1 ''b'' 20
                        (snd (queueForSync (Some 7) 3 ''a'' 10 (new_SyncManager ())))))) = [1, 3]"
  by code_simp

subsection \<open>What \<^verbatim>\<open>markAsSynced\<close> changes\<close>

lemma delete_by_key:
  assumes "distinct (map entry_id q)"
  shows "filter (\<lambda>x. entry_id x \<notin> set (map entry_id (filter (\<lambda>e. recordId e = rid) q))) q
       = filter (\<lambda>e. recordId e \<noteq> rid) q"
proof (rule filter_cong [OF refl])
  fix x assume x: "x \<in> set q"
  have inj: "inj_on entry_id (set q)"
    using assms by (simp add: distinct_map)
  show "(entry_id x \<notin> set (map entry_id (filter (\<lambda>e. recordId e = rid) q))) = (recordId x \<noteq> rid)"
  proof
    assume "entry_id x \<notin> set (map entry_id (filter (\<lambda>e. recordId e = rid) q))"
    with x show "recordId x \<noteq> rid" by auto
  next
    assume ne: "recordId x \<noteq> rid"
    show "entry_id x \<notin> set (map entry_id (filter (\<lambda>e. recordId e = rid) q))"
    proof
      assume "entry_id x \<in> set (map entry_id (filter (\<lambda>e. recordId e = rid) q))"
      then obtain e where e: "e \<in> set q" "recordId e = rid" "entry_id e = entry_id x" by auto
      with inj x have "e = x" by (auto dest: inj_onD)
      with e ne show False by simp
    qed
  qed
qed

lemma markAsSynced_indexes:
  "sync_queue_indexes (snd (markAsSynced rid now db)) = sync_queue_indexes db"
  by (simp add: markAsSynced_def store_index_def Let_def split: option.split)

lemma markAsSynced_sync_queue:
  assumes "distinct (map entry_id (sync_queue db))"
  shows "sync_queue (snd (markAsSynced rid now db))
       = (if ''recordId'' \<in> set (sync_queue_indexes db)
          then filter (\<lambda>e. recordId e \<noteq> rid) (sync_queue db) else sync_queue db)"
  using delete_by_key [OF assms, of rid]
  by (simp add: markAsSynced_def store_index_def Let_def split: option.split)

lemma markAsSynced_medical_records:
  "medical_records (snd (markAsSynced rid now db))
   = (case find (\<lambda>r. rec_id r = rid) (medical_records db) of
        None \<Rightarrow> medical_records db
      | Some r \<Rightarrow> map (\<lambda>x. if rec_id x = rid then r\<lparr> synced := True, updatedAt := now \<rparr> else x)
                   (medical_records db))"
  by (cases "''recordId'' \<in> set (sync_queue_indexes db)")
     (simp_all add: markAsSynced_def store_index_def Let_def split: option.split)

lemma markAsSynced_records:
  assumes "r' \<in> set (medical_records (snd (markAsSynced rid now db)))"
  shows "r' \<in> set (medical_records db) \<or> rec_id r' = rid"
proof (cases "find (\<lambda>r. rec_id r = rid) (medical_records db)")
  case None
  with assms show ?thesis
    by (simp add: markAsSynced_medical_records)
next
  case (Some r)
  then have "rec_id r = rid" by (auto simp: find_Some_iff)
  with assms Some show ?thesis
    by (auto simp: markAsSynced_medical_records split: if_splits)
qed

subsection \<open>A synced record that stays queued\<close>

lemma markAsSynced_without_index:
  assumes "''recordId'' \<notin> set (sync_queue_indexes db)"
  shows "sync_queue (snd (markAsSynced rid now db)) = sync_queue db
       \<and> fst (markAsSynced rid now db) = FailedToMarkAsSynced NotFoundError"
  using assms by (simp add: markAsSynced_def store_index_def Let_def split: option.split)

lemma addToSyncQueue_indexes:
  "sync_queue_indexes (addToSyncQueue ty rid prio now db) = sync_queue_indexes db"
  by (simp add: addToSyncQueue_def)

lemma saveMedicalRecord_indexes:
  "sync_queue_indexes (snd (saveMedicalRecord enc r now db)) = sync_queue_indexes db"
  by (simp add: saveMedicalRecord_def Let_def addToSyncQueue_def)

text \<open>
  Claim C1 at a concrete input. One record is saved into a fresh database, which also
  enqueues it. \<^verbatim>\<open>markAsSynced(1)\<close> then flags the record, fails on the index
  \<^verbatim>\<open>recordId\<close> that \<^verbatim>\<open>init\<close> never created, and leaves the queue entry of the
  record where it was: the record is synced and still pending.
\<close>

theorem markAsSynced_leaves_queue_entry:
  "map rec_id (medical_records one_saved) = [1]
   \<and> map recordId (sync_queue one_saved) = [1]
   \<and> fst (markAsSynced 1 200 one_saved) = FailedToMarkAsSynced NotFoundError
   \<and> map synced (medical_records (snd (markAsSynced 1 200 one_saved))) = [True]
   \<and> sync_queue (snd (markAsSynced 1 200 one_saved)) = sync_queue one_saved
   \<and> map recordId (getPendingSyncItems 5 (snd (markAsSynced 1 200 one_saved))) = [1]"
  by code_simp

subsection \<open>A pass over an entry whose record is missing\<close>

lemma orphan_lookup:
  assumes "orphan_kept db (lookup_sid soldier) e st" "recordId item = recordId e"
  shows "find (\<lambda>r. rec_id r = recordId item) (getMedicalRecords (lookup_sid soldier) (pass_db st)) = None"
  using assms by (auto simp: orphan_kept_def find_None_iff getMedicalRecords_def)

lemma sync_entry_orphan_kept:
  assumes inv: "orphan_kept db (lookup_sid soldier) e st"
    and dist: "distinct (map entry_id (sync_queue db))"
  shows "orphan_kept db (lookup_sid soldier) e (sync_entry soldier api now item st)"
proof (cases "find (\<lambda>r. rec_id r = recordId item) (getMedicalRecords (lookup_sid soldier) (pass_db st))")
  case None
  with inv show ?thesis by (simp add: sync_entry_def orphan_kept_def)
next
  case (Some r)
  then have r: "rec_id r = recordId item" "soldierId r = lookup_sid soldier"
    "r \<in> set (medical_records (pass_db st))"
    by (auto simp: find_Some_iff getMedicalRecords_def dest: nth_mem)
  with inv have ne: "recordId item \<noteq> recordId e"
    by (auto simp: orphan_kept_def)
  from inv obtain P where P: "P e" "sync_queue (pass_db st) = filter P (sync_queue db)"
    by (auto simp: orphan_kept_def)
  let ?db' = "snd (markAsSynced (recordId item) now (pass_db st))"
  have d': "distinct (map entry_id (sync_queue (pass_db st)))"
    using dist P(2) by (simp add: distinct_map_filter)
  have marked: "orphan_kept db (lookup_sid soldier) e (st\<lparr> pass_db := ?db', successCount := successCount st + 1 \<rparr>)"
  proof -
    have idx: "sync_queue_indexes ?db' = sync_queue_indexes db"
      using inv by (simp add: markAsSynced_indexes orphan_kept_def)
    have "sync_queue ?db' = filter (\<lambda>x. P x \<and> recordId x \<noteq> recordId item) (sync_queue db)
        \<or> sync_queue ?db' = filter P (sync_queue db)"
      using P(2) by (auto simp: markAsSynced_sync_queue [OF d'] intro: filter_cong)
    with P(1) ne have q: "\<exists>Q. Q e \<and> sync_queue ?db' = filter Q (sync_queue db)"
      by (metis (mono_tags, lifting))
    have recs: "\<forall>x \<in> set (medical_records ?db'). soldierId x = lookup_sid soldier \<longrightarrow> rec_id x \<noteq> recordId e"
    proof (intro ballI impI)
      fix x assume x: "x \<in> set (medical_records ?db')" "soldierId x = lookup_sid soldier"
      from markAsSynced_records [OF x(1)] show "rec_id x \<noteq> recordId e"
        using inv x(2) ne by (auto simp: orphan_kept_def)
    qed
    from idx q recs show ?thesis by (simp add: orphan_kept_def)
  qed
  show ?thesis
  proof (cases "api item r")
    case ApiThrew
    with Some inv show ?thesis by (simp add: sync_entry_def orphan_kept_def)
  next
    case (ApiReturned ok)
    with Some inv marked show ?thesis by (simp add: sync_entry_def orphan_kept_def)
  qed
qed

lemma sync_entry_skipped_mono:
  "set (skipped st) \<subseteq> set (skipped (sync_entry soldier api now item st))"
  by (auto simp: sync_entry_def split: option.split api_outcome.split)

lemma fold_sync_entry_orphan:
  assumes "orphan_kept db (lookup_sid soldier) e st" "distinct (map entry_id (sync_queue db))"
  shows "orphan_kept db (lookup_sid soldier) e (fold (sync_entry soldier api now) items st)
       \<and> set (skipped st) \<subseteq> set (skipped (fold (sync_entry soldier api now) items st))
       \<and> (e \<in> set items \<longrightarrow> recordId e \<in> set (skipped (fold (sync_entry soldier api now) items st)))"
  using assms
proof (induction items arbitrary: st)
  case Nil
  then show ?case by simp
next
  case (Cons item items)
  let ?st' = "sync_entry soldier api now item st"
  have inv': "orphan_kept db (lookup_sid soldier) e ?st'"
    using Cons.prems by (rule sync_entry_orphan_kept)
  note ih = Cons.IH [OF inv' Cons.prems(2)]
  have mono: "set (skipped st) \<subseteq> set (skipped ?st')" by (rule sync_entry_skipped_mono)
  have here: "item = e \<Longrightarrow> recordId e \<in> set (skipped ?st')"
    using orphan_lookup [OF Cons.prems(1), of item] by (simp add: sync_entry_def)
  from ih mono here show ?case by auto
qed

text \<open>
  Claim C7, as amended. When a pass runs (the hook is online and idle) and selects an
  entry whose record the lookup does not find, it warns and skips the entry: the entry
  is still in \<^verbatim>\<open>sync_queue\<close> after the pass, its record id is among the warnings, and
  the next call of \<^verbatim>\<open>getPendingSyncItems(5)\<close> selects it again.
\<close>

theorem attemptSync_skips_orphan:
  assumes idle: "\<not> hook_isSyncing hk" and online: "syncStatus hk = ''online''"
    and keys: "distinct (map entry_id (sync_queue db))"
    and pending: "e \<in> set (getPendingSyncItems 5 db)"
    and missing: "find (\<lambda>r. rec_id r = recordId e) (getMedicalRecords (lookup_sid soldier) db) = None"
  shows "e \<in> set (sync_queue (pass_db (snd (attemptSync soldier api now hk db))))
       \<and> recordId e \<in> set (skipped (snd (attemptSync soldier api now hk db)))
       \<and> e \<in> set (getPendingSyncItems 5 (pass_db (snd (attemptSync soldier api now hk db))))"
proof -
  let ?items = "getPendingSyncItems 5 db"
  let ?st = "fold (sync_entry soldier api now) ?items (idle_pass db)"
  from pending have nonempty: "?items \<noteq> []" by auto
  have run: "snd (attemptSync soldier api now hk db) = ?st"
    using idle online nonempty by (simp add: attemptSync_def Let_def)
  from pending have idx: "''priority'' \<in> set (sync_queue_indexes db)"
    by (auto simp: getPendingSyncItems_def store_index_def split: if_splits)
  have "filter (\<lambda>x. True) (sync_queue db) = sync_queue db" by simp
  then have start: "orphan_kept db (lookup_sid soldier) e (idle_pass db)"
    using missing unfolding orphan_kept_def idle_pass_def
    by (auto simp: find_None_iff getMedicalRecords_def intro!: exI [of _ "\<lambda>x. True"])
  note fin = fold_sync_entry_orphan [OF start keys, of api now ?items]
  from fin obtain P where P: "P e" "sync_queue (pass_db ?st) = filter P (sync_queue db)"
    and idx': "sync_queue_indexes (pass_db ?st) = sync_queue_indexes db"
    by (auto simp: orphan_kept_def)
  from pending idx have inq: "e \<in> set (take 5 (sort_key entry_key (sync_queue db)))"
    by (simp add: getPendingSyncItems_sort_key)
  then have "e \<in> set (sync_queue db)" by (auto dest: in_set_takeD)
  with P have still: "e \<in> set (sync_queue (pass_db ?st))" by simp
  have "e \<in> set (take 5 (filter P (sort_key entry_key (sync_queue db))))"
    using inq P(1) by (rule in_take_filter)
  then have again: "e \<in> set (getPendingSyncItems 5 (pass_db ?st))"
    using idx idx' P(2) by (simp add: getPendingSyncItems_sort_key filter_sort)
  from fin pending have warned: "recordId e \<in> set (skipped ?st)" by simp
  from still warned again show ?thesis unfolding run by simp
qed

theorem attemptSync_skips_orphan_witness:
  "\<not> hook_isSyncing online_hook \<and> syncStatus online_hook = ''online''
   \<and> distinct (map entry_id (sync_queue orphan_db))
   \<and> hd (sync_queue orphan_db) \<in> set (getPendingSyncItems 5 orphan_db)
   \<and> find (\<lambda>r. rec_id r = recordId (hd (sync_queue orphan_db)))
        (getMedicalRecords (lookup_sid None) orphan_db) = None
   \<and> hd (sync_queue orphan_db)
        \<in> set (sync_queue (pass_db (snd (attemptSync None api_accepts 20 online_hook orphan_db))))
   \<and> recordId (hd (sync_queue orphan_db))
        \<in> set (skipped (snd (attemptSync None api_accepts 20 online_hook orphan_db)))
   \<and> hd (sync_queue orphan_db)
        \<in> set (getPendingSyncItems 5 (pass_db (snd (attemptSync None api_accepts 20 online_hook orphan_db))))"
proof -
  have h1: "\<not> hook_isSyncing online_hook" by (simp add: online_hook_def)
  have h2: "syncStatus online_hook = ''online''" by (simp add: online_hook_def)
  have h3: "distinct (map entry_id (sync_queue orphan_db))" by code_simp
  have h4: "hd (sync_queue orphan_db) \<in> set (getPendingSyncItems 5 orphan_db)" by code_simp
  have h5: "find (\<lambda>r. rec_id r = recordId (hd (sync_queue orphan_db)))
        (getMedicalRecords (lookup_sid None) orphan_db) = None" by code_simp
  from h1 h2 h3 h4 h5 attemptSync_skips_orphan [OF h1 h2 h3 h4 h5, of api_accepts 20]
  show ?thesis by blast
qed

text \<open>
  The entry is neither resolved as a failure nor removed: with one entry for record 7
  and no record in the store, a pass leaves the queue as it was, counts no error, and
  the entry is pending again.
\<close>

theorem attemptSync_orphan_counterexample:
  "medical_records orphan_db = []
   \<and> map recordId (sync_queue orphan_db) = [7]
   \<and> sync_queue (pass_db (snd (attemptSync None api_accepts 20 online_hook orphan_db)))
       = sync_queue orphan_db
   \<and> getPendingSyncItems 5 (pass_db (snd (attemptSync None api_accepts 20 online_hook orphan_db)))
       = sync_queue orphan_db
   \<and> errorCount (snd (attemptSync None api_accepts 20 online_hook orphan_db)) = 0"
  by code_simp

section \<open>The server-side queue\<close>

subsection \<open>The retry branch\<close>

text \<open>
  Claim C3, as amended. Take a pass whose batch holds no item that is without a record
  and has its retries spent, so that the pass runs to its end. An item of that batch
  with priority 1, 2 or 3 whose delivery fails while its attempt count is below
  \<^verbatim>\<open>maxRetries\<close> is pushed to the back of the array, behind every item that was not
  in the batch, with status \<^verbatim>\<open>retrying\<close>, one more attempt, \<^verbatim>\<open>lastAttempt\<close> set to
  the current time and its enqueue timestamp untouched; its new priority is at least as
  urgent as one escalation step, that is between 1 and \<open>max 1 (p - 1)\<close>.
\<close>

theorem retry_requeues_item:
  assumes batch: "item \<in> set (take (syncBatchSize m) (syncQueue m))"
    and fails: "\<forall>d. isl (deliver persist item d)"
    and below: "attempts item < maxRetries m"
    and prio: "priority item \<in> {1, 2, 3}"
    and ends: "\<forall>b \<in> set (take (syncBatchSize m) (syncQueue m)).
                 item_record b = None \<longrightarrow> attempts b < maxRetries m"
  shows "\<exists>ys item'. syncQueue (fst (processSyncBatch persist now m))
                      = drop (syncBatchSize m) (syncQueue m) @ ys
        \<and> item' \<in> set ys
        \<and> item' = retry_item now item
        \<and> item_id item' = item_id item \<and> item_record item' = item_record item
        \<and> status item' = StatusRetrying
        \<and> attempts item' = attempts item + 1
        \<and> lastAttempt item' = Some now
        \<and> timestamp item' = timestamp item
        \<and> 1 \<le> priority item' \<and> priority item' \<le> max 1 (priority item - 1)"
proof -
  from ends have "snd (processSyncBatch persist now m) = None"
    by (simp add: processSyncBatch_thrown)
  with processSyncBatch_queue [of persist now m] obtain ys where ys:
    "syncQueue (fst (processSyncBatch persist now m)) = drop (syncBatchSize m) (syncQueue m) @ ys"
    "\<forall>b \<in> set (take (syncBatchSize m) (syncQueue m)).
        (\<forall>d. isl (deliver persist b d)) \<and> attempts b < maxRetries m \<longrightarrow> retry_item now b \<in> set ys"
    by blast
  from ys(2) batch fails below have mem: "retry_item now item \<in> set ys" by blast
  have fields: "item_id (retry_item now item) = item_id item"
    "item_record (retry_item now item) = item_record item"
    "status (retry_item now item) = StatusRetrying"
    "attempts (retry_item now item) = attempts item + 1"
    "lastAttempt (retry_item now item) = Some now"
    "timestamp (retry_item now item) = timestamp item"
    by (simp_all add: retry_item_def)
  have p: "1 \<le> priority (retry_item now item)"
    "priority (retry_item now item) \<le> max 1 (priority item - 1)"
    using prio by (auto simp: retry_item_def)
  from ys(1) mem fields p show ?thesis by blast
qed

theorem retry_requeues_item_witness:
  "hd (syncQueue (one_queued 2)) \<in> set (take (syncBatchSize (one_queued 2)) (syncQueue (one_queued 2)))
   \<and> attempts (hd (syncQueue (one_queued 2))) < maxRetries (one_queued 2)
   \<and> priority (hd (syncQueue (one_queued 2))) = 2
   \<and> map item_record (take (syncBatchSize (one_queued 2)) (syncQueue (one_queued 2))) = [Some 7]
   \<and> (\<exists>ys item'. syncQueue (fst (processSyncBatch always_down 20 (one_queued 2)))
                      = drop (syncBatchSize (one_queued 2)) (syncQueue (one_queued 2)) @ ys
        \<and> item' \<in> set ys
        \<and> status item' = StatusRetrying
        \<and> attempts item' = 1
        \<and> timestamp item' = 10
        \<and> 1 \<le> priority item' \<and> priority item' \<le> 1)"
proof -
  let ?m = "one_queued 2"
  let ?item = "hd (syncQueue ?m)"
  have h1: "?item \<in> set (take (syncBatchSize ?m) (syncQueue ?m))" by code_simp
  have rec: "map item_record (take (syncBatchSize ?m) (syncQueue ?m)) = [Some 7]" by code_simp
  have "item_record ?item = Some 7" by code_simp
  then have h2: "\<forall>d. isl (deliver always_down ?item d)"
    by (simp add: deliver_def always_down_def)
  have h5: "\<forall>b \<in> set (take (syncBatchSize ?m) (syncQueue ?m)).
      item_record b = None \<longrightarrow> attempts b < maxRetries ?m" by code_simp
  have h3: "attempts ?item < maxRetries ?m" by code_simp
  have p2: "priority ?item = 2" by code_simp
  then have h4: "priority ?item \<in> {1, 2, 3}" by simp
  have a0: "attempts ?item = 0" by code_simp
  have t0: "timestamp ?item = 10" by code_simp
  from retry_requeues_item [where persist = always_down and now = 20, OF h1 h2 h3 h4 h5]
  obtain ys item' where r:
    "syncQueue (fst (processSyncBatch always_down 20 ?m)) = drop (syncBatchSize ?m) (syncQueue ?m) @ ys"
    "item' \<in> set ys" "status item' = StatusRetrying" "attempts item' = attempts ?item + 1"
    "timestamp item' = timestamp ?item"
    "1 \<le> priority item'" "priority item' \<le> max 1 (priority ?item - 1)"
    by blast
  from r(4) a0 have a1: "attempts item' = 1" by simp
  from r(5) t0 have t1: "timestamp item' = 10" by simp
  from r(7) p2 have p1: "priority item' \<le> 1" by simp
  from h1 h3 p2 rec r(1) r(2) r(3) a1 t1 r(6) p1 show ?thesis by blast
qed

text \<open>
  An item of priority 3 comes back with priority 1, not 2, with status
  \<^verbatim>\<open>retrying\<close> and with the timestamp of its first enqueue.
\<close>

theorem retry_priority_counterexample:
  "map priority (syncQueue (one_queued 3)) = [3]
   \<and> syncQueue (fst (processSyncBatch always_down 20 (one_queued 3)))
     = [\<lparr> item_id = ''sync_a'', item_record = Some 7, priority = 1, attempts = 1,
          lastAttempt = Some 20, timestamp = 10, status = StatusRetrying, item_error = None \<rparr>]
   \<and> max 1 (3 - 1) = (2::int)"
  by code_simp

subsection \<open>The retry cap\<close>

lemma process_item_counts:
  "failedDeliveries sid (fst (fst (process_item persist now b st)))
     = failedDeliveries sid (fst st)
       + (if item_id b = sid \<and> isl (deliver persist b (database (fst st))) then 1 else 0)"
  "permanentFailures sid (fst (fst (process_item persist now b st)))
     = permanentFailures sid (fst st)
       + (if item_id b = sid \<and> isl (deliver persist b (database (fst st)))
             \<and> \<not> attempts b < maxRetries (fst st) then 1 else 0)"
  by (cases "deliver persist b (database (fst st))";
      simp add: process_item_def syncSingleItem_def handleSyncFailure_console
        say_simps Let_def failedDeliveries_def permanentFailures_def)+

lemma with_id_append: "with_id sid (xs @ ys) = with_id sid xs @ with_id sid ys"
  by (simp add: with_id_def)

lemma with_id_Cons:
  "with_id sid (b # bs) = (if item_id b = sid then b # with_id sid bs else with_id sid bs)"
  by (simp add: with_id_def)

lemma with_id_process_item:
  "with_id sid (syncQueue (fst (fst (process_item persist now b st))))
     = with_id sid (syncQueue (fst st)) @
         (if item_id b = sid \<and> isl (deliver persist b (database (fst st)))
               \<and> attempts b < maxRetries (fst st)
          then [retry_item now b] else [])"
  by (simp add: process_item_fields with_id_def retry_item_def)

lemma process_item_ledger:
  assumes led: "retry_ledger sid c0 p0 n (fst st) (b # bs)"
    and down: "\<forall>it d. item_id it = sid \<longrightarrow> isl (deliver persist it d)"
  shows "retry_ledger sid c0 p0 n (fst (fst (process_item persist now b st))) bs"
proof (cases "item_id b = sid")
  case False
  with led show ?thesis
    by (simp add: retry_ledger_def process_item_fields(1) process_item_counts
          with_id_process_item with_id_Cons)
next
  case True
  with down have f: "isl (deliver persist b (database (fst st)))" by simp
  from led True obtain x where x:
    "with_id sid (syncQueue (fst st)) @ b # with_id sid bs = [x]"
    "0 \<le> attempts x" "attempts x \<le> n"
    "int (failedDeliveries sid (fst st)) = int c0 + attempts x"
    "permanentFailures sid (fst st) = p0"
    and mr: "maxRetries (fst st) = n"
    by (auto simp: retry_ledger_def with_id_Cons)
  from x(1) have alone: "with_id sid (syncQueue (fst st)) = []" "with_id sid bs = []" "x = b"
    by (auto simp: append_eq_Cons_conv Cons_eq_append_conv)
  show ?thesis
  proof (cases "attempts b < n")
    case True
    have "attempts (retry_item now b) = attempts b + 1" by (simp add: retry_item_def)
    with True x alone mr f \<open>item_id b = sid\<close> show ?thesis
      by (simp add: retry_ledger_def process_item_fields(1) process_item_counts
            with_id_process_item)
  next
    case False
    with x(3) alone(3) have "attempts b = n" by simp
    with False x alone mr f \<open>item_id b = sid\<close> show ?thesis
      by (simp add: retry_ledger_def process_item_fields(1) process_item_counts
            with_id_process_item)
  qed
qed

text \<open>
  Only an item without a record can end the loop early. When every other item of the
  batch carries one, the loop can only end early on the item \<open>sid\<close> itself, after its
  permanent failure is written.
\<close>

lemma process_batch_ledger:
  assumes "retry_ledger sid c0 p0 n (fst st) batch"
    and "\<forall>it d. item_id it = sid \<longrightarrow> isl (deliver persist it d)"
    and "\<forall>b \<in> set batch. item_id b \<noteq> sid \<longrightarrow> item_record b \<noteq> None"
  shows "retry_ledger sid c0 p0 n (fst (fst (process_batch persist now batch st))) []"
  using assms
proof (induction batch arbitrary: st)
  case Nil
  then show ?case by simp
next
  case (Cons b bs)
  let ?st' = "fst (process_item persist now b st)"
  from process_item_ledger [OF Cons.prems(1,2)]
  have led': "retry_ledger sid c0 p0 n (fst ?st') bs" .
  show ?case
  proof (cases "snd (process_item persist now b st)")
    case None
    from Cons.prems(3) have "\<forall>b \<in> set bs. item_id b \<noteq> sid \<longrightarrow> item_record b \<noteq> None"
      by simp
    from Cons.IH [OF led' Cons.prems(2) this] None show ?thesis by simp
  next
    case (Some err)
    with process_item_thrown [of persist now b st] have "item_record b = None" by auto
    with Cons.prems(3) have "item_id b = sid" by auto
    with Cons.prems(1) have "with_id sid bs = []"
      by (auto simp: retry_ledger_def with_id_Cons append_eq_Cons_conv Cons_eq_append_conv)
    with led' have "retry_ledger sid c0 p0 n (fst ?st') []"
      by (simp add: retry_ledger_def with_id_def)
    with Some show ?thesis by simp
  qed
qed

lemma retry_ledger_console:
  assumes "retry_ledger sid c0 p0 n m pending"
    and "syncQueue m' = syncQueue m" "maxRetries m' = maxRetries m"
    and "failedDeliveries sid m' = failedDeliveries sid m"
    and "permanentFailures sid m' = permanentFailures sid m"
  shows "retry_ledger sid c0 p0 n m' pending"
  using assms by (simp add: retry_ledger_def)

lemma swap_singleton: "xs @ ys = [x] \<Longrightarrow> ys @ xs = [x]"
  by (cases xs; cases ys) auto

lemma processSyncBatch_ledger:
  assumes led: "retry_ledger sid c0 p0 n m []"
    and down: "\<forall>it d. item_id it = sid \<longrightarrow> isl (deliver persist it d)"
    and others: "\<forall>it \<in> set (syncQueue m). item_id it \<noteq> sid \<longrightarrow> item_record it \<noteq> None"
  shows "retry_ledger sid c0 p0 n (fst (processSyncBatch persist now m)) []"
proof (cases "syncQueue m = []")
  case True
  with led show ?thesis
    by (simp add: empty_pass retry_ledger_def failedDeliveries_def permanentFailures_def)
next
  case False
  let ?batch = "take (syncBatchSize m) (syncQueue m)"
  let ?m1 = "say (LogProcessingBatch (length ?batch))
                    (m\<lparr> syncQueue := drop (syncBatchSize m) (syncQueue m) \<rparr>)"
  let ?st = "(?m1, \<lparr> successful = 0, failed = 0, retried = 0 \<rparr>)"
  have w: "with_id sid (syncQueue m) = with_id sid ?batch @ with_id sid (drop (syncBatchSize m) (syncQueue m))"
    by (simp add: with_id_append [symmetric])
  have nil: "with_id sid [] = ([] :: 'a sync_item list)" by (simp add: with_id_def)
  have q1: "syncQueue ?m1 = drop (syncBatchSize m) (syncQueue m)" "maxRetries ?m1 = maxRetries m"
    "failedDeliveries sid ?m1 = failedDeliveries sid m"
    "permanentFailures sid ?m1 = permanentFailures sid m"
    by (simp_all add: say_def failedDeliveries_def permanentFailures_def)
  from led have mr: "maxRetries m = n" by (simp add: retry_ledger_def)
  from led consider
    (live) x where "with_id sid (syncQueue m) = [x]" "0 \<le> attempts x" "attempts x \<le> n"
      "int (failedDeliveries sid m) = int c0 + attempts x" "permanentFailures sid m = p0"
    | (gone) "with_id sid (syncQueue m) = []" "int (failedDeliveries sid m) = int c0 + n + 1"
      "permanentFailures sid m = Suc p0"
    by (auto simp: retry_ledger_def nil)
  then have "retry_ledger sid c0 p0 n ?m1 ?batch"
  proof cases
    case live
    from live(1) have "with_id sid (drop (syncBatchSize m) (syncQueue m)) @ with_id sid ?batch = [x]"
      unfolding w by (rule swap_singleton)
    with live(2-5) mr show ?thesis
      unfolding retry_ledger_def q1 by blast
  next
    case gone
    from gone(1) have "with_id sid (drop (syncBatchSize m) (syncQueue m)) @ with_id sid ?batch = []"
      unfolding w by simp
    with gone(2,3) mr show ?thesis
      unfolding retry_ledger_def q1 by blast
  qed
  then have start: "retry_ledger sid c0 p0 n (fst ?st) ?batch" by simp
  from others have "\<forall>b \<in> set ?batch. item_id b \<noteq> sid \<longrightarrow> item_record b \<noteq> None"
    by (auto dest: in_set_takeD)
  from process_batch_ledger [OF start down this]
  have "retry_ledger sid c0 p0 n (fst (fst (process_batch persist now ?batch ?st))) []" .
  then show ?thesis
    by (rule retry_ledger_console)
       (simp_all add: processSyncBatch_pass [OF False] process_batch_fields say_simps)
qed

text \<open>A pass changes neither the id nor the record of an item it leaves queued.\<close>

lemma processSyncBatch_records:
  assumes "it' \<in> set (syncQueue (fst (processSyncBatch persist now m)))"
  shows "\<exists>it \<in> set (syncQueue m). item_id it' = item_id it \<and> item_record it' = item_record it"
proof -
  from processSyncBatch_queue [of persist now m] obtain ys where ys:
    "syncQueue (fst (processSyncBatch persist now m)) = drop (syncBatchSize m) (syncQueue m) @ ys"
    "set ys \<subseteq> retry_item now ` set (take (syncBatchSize m) (syncQueue m))"
    by blast
  from assms ys(1) consider (waiting) "it' \<in> set (drop (syncBatchSize m) (syncQueue m))"
    | (retried) "it' \<in> set ys" by auto
  then show ?thesis
  proof cases
    case waiting
    then have "it' \<in> set (syncQueue m)" by (rule in_set_dropD)
    then show ?thesis by blast
  next
    case retried
    with ys(2) obtain b where b: "b \<in> set (take (syncBatchSize m) (syncQueue m))"
      "it' = retry_item now b" by auto
    from b(1) have "b \<in> set (syncQueue m)" by (rule in_set_takeD)
    moreover from b(2) have "item_id it' = item_id b" "item_record it' = item_record b"
      by (simp_all add: retry_item_def)
    ultimately show ?thesis by blast
  qed
qed

lemma driver_step_records:
  assumes mem: "it' \<in> set (syncQueue (driver_step ev m))"
  shows "\<exists>it \<in> set (syncQueue m). item_id it' = item_id it \<and> item_record it' = item_record it"
proof (cases ev)
  case (TimerTick persist now)
  with mem show ?thesis by (simp add: processSyncBatch_records)
next
  case (ForceSync persist now)
  with mem have "it' \<in> set (syncQueue (fst (processSyncBatch persist now (say LogManualSync m))))"
    by (simp add: forceSync_def)
  from processSyncBatch_records [OF this] show ?thesis by (simp add: say_simps)
next
  case (EmergencySync persist now)
  let ?m3 = "(say LogEmergency m)\<lparr> syncQueue :=
      array_sort comparePriority (map (\<lambda>item. item\<lparr> priority := 1 \<rparr>) (syncQueue m)) \<rparr>"
  have q3: "set (syncQueue ?m3) = (\<lambda>item. item\<lparr> priority := 1 \<rparr>) ` set (syncQueue m)"
    by (simp add: set_array_sort)
  from mem EmergencySync have "it' \<in> set (syncQueue (fst (processSyncBatch persist now ?m3)))"
    by (simp add: activateEmergencySync_def Let_def say_simps)
  from processSyncBatch_records [OF this] obtain it3 where it3:
    "it3 \<in> set (syncQueue ?m3)" "item_id it' = item_id it3" "item_record it' = item_record it3"
    by blast
  from it3(1) q3 obtain it where "it \<in> set (syncQueue m)" "it3 = it\<lparr> priority := 1 \<rparr>"
    by auto
  with it3(2,3) show ?thesis by auto
qed

lemma with_id_escalated:
  "mset (with_id sid (array_sort cmp (map (\<lambda>item. item\<lparr> priority := 1 \<rparr>) q)))
   = mset (map (\<lambda>item. item\<lparr> priority := 1 \<rparr>) (with_id sid q))"
proof -
  have "filter (\<lambda>it. item_id it = sid) (map (\<lambda>item. item\<lparr> priority := 1 \<rparr>) q)
      = map (\<lambda>item. item\<lparr> priority := 1 \<rparr>) (filter (\<lambda>it. item_id it = sid) q)"
    by (induction q) simp_all
  then have "mset (map (\<lambda>item. item\<lparr> priority := 1 \<rparr>) (with_id sid q))
      = filter_mset (\<lambda>it. item_id it = sid) (mset (map (\<lambda>item. item\<lparr> priority := 1 \<rparr>) q))"
    unfolding with_id_def by (simp only: mset_filter [symmetric])
  also have "\<dots> = filter_mset (\<lambda>it. item_id it = sid)
      (mset (array_sort cmp (map (\<lambda>item. item\<lparr> priority := 1 \<rparr>) q)))"
    by (simp only: mset_array_sort)
  finally show ?thesis unfolding with_id_def by simp
qed

lemma escalation_ledger:
  assumes led: "retry_ledger sid c0 p0 n m []"
  shows "retry_ledger sid c0 p0 n
     ((say LogEmergency m)\<lparr> syncQueue :=
        array_sort comparePriority (map (\<lambda>item. item\<lparr> priority := 1 \<rparr>) (syncQueue m)) \<rparr>) []"
proof -
  let ?f = "\<lambda>item :: 'a sync_item. item\<lparr> priority := 1 \<rparr>"
  let ?m3 = "(say LogEmergency m)\<lparr> syncQueue := array_sort comparePriority (map ?f (syncQueue m)) \<rparr>"
  have nil: "with_id sid [] = ([] :: 'a sync_item list)" by (simp add: with_id_def)
  have f3: "maxRetries ?m3 = maxRetries m" "failedDeliveries sid ?m3 = failedDeliveries sid m"
    "permanentFailures sid ?m3 = permanentFailures sid m"
    "syncQueue ?m3 = array_sort comparePriority (map ?f (syncQueue m))"
    by (simp_all add: say_def failedDeliveries_def permanentFailures_def)
  note ms = with_id_escalated [of sid comparePriority "syncQueue m"]
  from led have mr: "maxRetries m = n" by (simp add: retry_ledger_def)
  from led consider
    (live) x where "with_id sid (syncQueue m) = [x]" "0 \<le> attempts x" "attempts x \<le> n"
      "int (failedDeliveries sid m) = int c0 + attempts x" "permanentFailures sid m = p0"
    | (gone) "with_id sid (syncQueue m) = []" "int (failedDeliveries sid m) = int c0 + n + 1"
      "permanentFailures sid m = Suc p0"
    by (auto simp: retry_ledger_def nil)
  then show ?thesis
  proof cases
    case live
    from ms live(1) have "with_id sid (syncQueue ?m3) = [?f x]" by (simp add: f3)
    moreover have "attempts (?f x) = attempts x" by simp
    ultimately show ?thesis
      using live(2-5) mr unfolding retry_ledger_def f3(1-3) nil by auto
  next
    case gone
    from ms gone(1) have "with_id sid (syncQueue ?m3) = []" by (simp add: f3)
    then show ?thesis
      using gone(2,3) mr unfolding retry_ledger_def f3(1-3) nil by auto
  qed
qed

lemma driver_step_ledger:
  assumes led: "retry_ledger sid c0 p0 n m []"
    and down: "\<forall>it d. item_id it = sid \<longrightarrow> isl (deliver (event_persist ev) it d)"
    and others: "\<forall>it \<in> set (syncQueue m). item_id it \<noteq> sid \<longrightarrow> item_record it \<noteq> None"
  shows "retry_ledger sid c0 p0 n (driver_step ev m) []"
proof (cases ev)
  case (TimerTick persist now)
  with down have "\<forall>it d. item_id it = sid \<longrightarrow> isl (deliver persist it d)" by simp
  from processSyncBatch_ledger [OF led this others] TimerTick show ?thesis by simp
next
  case (ForceSync persist now)
  with down have d: "\<forall>it d. item_id it = sid \<longrightarrow> isl (deliver persist it d)" by simp
  have l: "retry_ledger sid c0 p0 n (say LogManualSync m) []"
    using led by (rule retry_ledger_console)
       (simp_all add: say_def failedDeliveries_def permanentFailures_def)
  have o: "\<forall>it \<in> set (syncQueue (say LogManualSync m)). item_id it \<noteq> sid \<longrightarrow> item_record it \<noteq> None"
    using others by (simp add: say_simps)
  from processSyncBatch_ledger [OF l d o] ForceSync show ?thesis
    by (simp add: forceSync_def)
next
  case (EmergencySync persist now)
  let ?m3 = "(say LogEmergency m)\<lparr> syncQueue :=
      array_sort comparePriority (map (\<lambda>item. item\<lparr> priority := 1 \<rparr>) (syncQueue m)) \<rparr>"
  from EmergencySync down have d: "\<forall>it d. item_id it = sid \<longrightarrow> isl (deliver persist it d)"
    by simp
  have "set (syncQueue ?m3) = (\<lambda>item. item\<lparr> priority := 1 \<rparr>) ` set (syncQueue m)"
    by (simp add: set_array_sort)
  with others have o: "\<forall>it \<in> set (syncQueue ?m3). item_id it \<noteq> sid \<longrightarrow> item_record it \<noteq> None"
    by auto
  from processSyncBatch_ledger [OF escalation_ledger [OF led] d o] EmergencySync show ?thesis
    by (simp add: activateEmergencySync_def Let_def say_simps)
qed

lemma run_driver_ledger:
  assumes "retry_ledger sid c0 p0 n m []"
    and "\<forall>ev \<in> set evs. \<forall>it d. item_id it = sid \<longrightarrow> isl (deliver (event_persist ev) it d)"
    and "\<forall>it \<in> set (syncQueue m). item_id it \<noteq> sid \<longrightarrow> item_record it \<noteq> None"
  shows "retry_ledger sid c0 p0 n (run_driver evs m) []"
  using assms
proof (induction evs arbitrary: m)
  case Nil
  then show ?case by (simp add: run_driver_def)
next
  case (Cons ev evs)
  from Cons.prems(2)
  have here: "\<forall>it d. item_id it = sid \<longrightarrow> isl (deliver (event_persist ev) it d)"
    and rest: "\<forall>ev \<in> set evs. \<forall>it d. item_id it = sid \<longrightarrow> isl (deliver (event_persist ev) it d)"
    by simp_all
  from driver_step_ledger [OF Cons.prems(1) here Cons.prems(3)]
  have led': "retry_ledger sid c0 p0 n (driver_step ev m) []" .
  have others': "\<forall>it \<in> set (syncQueue (driver_step ev m)).
      item_id it \<noteq> sid \<longrightarrow> item_record it \<noteq> None"
  proof (intro ballI impI)
    fix it' assume mem: "it' \<in> set (syncQueue (driver_step ev m))" and other: "item_id it' \<noteq> sid"
    from driver_step_records [OF mem] obtain it where
      "it \<in> set (syncQueue m)" "item_id it' = item_id it" "item_record it' = item_record it"
      by blast
    with other Cons.prems(3) show "item_record it' \<noteq> None" by auto
  qed
  from Cons.IH [OF led' rest others'] show ?case by (simp add: run_driver_def)
qed

text \<open>
  Claim C2, as amended. An item is queued once under its id, with no attempt yet, among
  other items that all carry a record, and every delivery of it fails. Then at every
  moment of every run of the driver (timer passes, forced passes, emergency
  escalations, in any order, whatever the deliveries of the other items do) one of two
  things holds. Either the item is still queued:
  its failed deliveries so far are as many as its attempt count, at most
  \<^verbatim>\<open>maxRetries\<close>, and no permanent failure is logged for it. Or it is no longer
  queued: it has failed exactly \<^verbatim>\<open>maxRetries + 1\<close> times and exactly one permanent
  failure is logged. So the permanent failure comes with failed delivery number
  \<^verbatim>\<open>maxRetries + 1\<close> (4 by default), never sooner and never later.
\<close>

theorem retry_cap:
  assumes one: "with_id sid (syncQueue m) = [item]" and fresh: "attempts item = 0"
    and n: "0 \<le> maxRetries m"
    and down: "\<forall>ev \<in> set evs. \<forall>it d. item_id it = sid \<longrightarrow> isl (deliver (event_persist ev) it d)"
    and others: "\<forall>it \<in> set (syncQueue m). item_id it \<noteq> sid \<longrightarrow> item_record it \<noteq> None"
  shows "(\<exists>x. with_id sid (syncQueue (run_driver evs m)) = [x]
            \<and> 0 \<le> attempts x \<and> attempts x \<le> maxRetries m
            \<and> int (failedDeliveries sid (run_driver evs m))
                = int (failedDeliveries sid m) + attempts x
            \<and> permanentFailures sid (run_driver evs m) = permanentFailures sid m)
       \<or> (with_id sid (syncQueue (run_driver evs m)) = []
            \<and> int (failedDeliveries sid (run_driver evs m))
                = int (failedDeliveries sid m) + maxRetries m + 1
            \<and> permanentFailures sid (run_driver evs m) = permanentFailures sid m + 1)"
proof -
  have nil: "with_id sid [] = ([] :: 'a sync_item list)" by (simp add: with_id_def)
  have "retry_ledger sid (failedDeliveries sid m) (permanentFailures sid m) (maxRetries m) m []"
    using one fresh n by (simp add: retry_ledger_def nil)
  from run_driver_ledger [OF this down others]
  have "retry_ledger sid (failedDeliveries sid m) (permanentFailures sid m) (maxRetries m)
          (run_driver evs m) []" .
  then show ?thesis
    by (auto simp: retry_ledger_def nil)
qed

theorem retry_cap_witness:
  "map (\<lambda>it. (item_id it, attempts it)) (syncQueue two_queued) = [(''sync_b'', 0), (''sync_a'', 0)]
   \<and> map item_record (syncQueue two_queued) = [Some 8, Some 7]
   \<and> maxRetries two_queued = 3
   \<and> failedDeliveries ''sync_a'' two_queued = 0
   \<and> with_id ''sync_a'' (syncQueue (run_driver
        [TimerTick always_down 20, TimerTick always_down 30, ForceSync always_down 40] two_queued)) \<noteq> []
   \<and> failedDeliveries ''sync_a'' (run_driver
        [TimerTick always_down 20, TimerTick always_down 30, ForceSync always_down 40] two_queued) = 3
   \<and> permanentFailures ''sync_a'' (run_driver
        [TimerTick always_down 20, TimerTick always_down 30, ForceSync always_down 40] two_queued) = 0
   \<and> with_id ''sync_a'' (syncQueue (run_driver
        [TimerTick always_down 20, TimerTick always_down 30, ForceSync always_down 40,
         TimerTick always_down 50] two_queued)) = []
   \<and> failedDeliveries ''sync_a'' (run_driver
        [TimerTick always_down 20, TimerTick always_down 30, ForceSync always_down 40,
         TimerTick always_down 50] two_queued) = 4
   \<and> permanentFailures ''sync_a'' (run_driver
        [TimerTick always_down 20, TimerTick always_down 30, ForceSync always_down 40,
         TimerTick always_down 50] two_queued) = 1"
proof -
  let ?evs3 = "[TimerTick always_down 20, TimerTick always_down 30, ForceSync always_down 40]
      :: (nat, unit) driver_event list"
  let ?evs4 = "[TimerTick always_down 20, TimerTick always_down 30, ForceSync always_down 40,
         TimerTick always_down 50] :: (nat, unit) driver_event list"
  let ?item = "hd (with_id ''sync_a'' (syncQueue two_queued))"
  have one: "with_id ''sync_a'' (syncQueue two_queued) = [?item]" by code_simp
  have fresh: "attempts ?item = 0" by code_simp
  have n: "maxRetries two_queued = 3" by code_simp
  then have n0: "0 \<le> maxRetries two_queued" by simp
  have "isl (deliver always_down it d)" for it :: "nat sync_item" and d :: unit
    by (cases "item_record it") (simp_all add: deliver_def always_down_def)
  then have d3: "\<forall>ev \<in> set ?evs3. \<forall>it d. item_id it = ''sync_a'' \<longrightarrow> isl (deliver (event_persist ev) it d)"
    and d4: "\<forall>ev \<in> set ?evs4. \<forall>it d. item_id it = ''sync_a'' \<longrightarrow> isl (deliver (event_persist ev) it d)"
    by simp_all
  have recs: "map item_record (syncQueue two_queued) = [Some 8, Some 7]" by code_simp
  have o: "\<forall>it \<in> set (syncQueue two_queued). item_id it \<noteq> ''sync_a'' \<longrightarrow> item_record it \<noteq> None"
    by code_simp
  have q: "map (\<lambda>it. (item_id it, attempts it)) (syncQueue two_queued)
      = [(''sync_b'', 0), (''sync_a'', 0)]" by code_simp
  have f0: "failedDeliveries ''sync_a'' two_queued = 0" by code_simp
  have p0: "permanentFailures ''sync_a'' two_queued = 0" by code_simp
  have live3: "with_id ''sync_a'' (syncQueue (run_driver ?evs3 two_queued)) \<noteq> []" by code_simp
  have a3: "map attempts (with_id ''sync_a'' (syncQueue (run_driver ?evs3 two_queued))) = [3]"
    by code_simp
  have gone4: "with_id ''sync_a'' (syncQueue (run_driver ?evs4 two_queued)) = []" by code_simp
  from retry_cap [OF one fresh n0 d3 o] live3 a3 f0 p0
  have r3: "failedDeliveries ''sync_a'' (run_driver ?evs3 two_queued) = 3
      \<and> permanentFailures ''sync_a'' (run_driver ?evs3 two_queued) = 0"
    by auto
  from retry_cap [OF one fresh n0 d4 o] gone4 n f0 p0
  have r4: "failedDeliveries ''sync_a'' (run_driver ?evs4 two_queued) = 4
      \<and> permanentFailures ''sync_a'' (run_driver ?evs4 two_queued) = 1"
    by auto
  from q recs n f0 live3 r3 gone4 r4 show ?thesis by blast
qed

text \<open>
  With the default \<^verbatim>\<open>maxRetries = 3\<close>: after three failed deliveries the item is
  still queued for a retry, and nothing has been declared permanent; the fourth failure
  does that.
\<close>

theorem retry_cap_counterexample:
  "maxRetries (one_queued 3) = 3
   \<and> map attempts (syncQueue (one_queued 3)) = [0]
   \<and> failedDeliveries ''sync_a''
        (run_driver [TimerTick always_down 20, TimerTick always_down 30, TimerTick always_down 40]
           (one_queued 3)) = 3
   \<and> permanentFailures ''sync_a''
        (run_driver [TimerTick always_down 20, TimerTick always_down 30, TimerTick always_down 40]
           (one_queued 3)) = 0
   \<and> map item_id (syncQueue
        (run_driver [TimerTick always_down 20, TimerTick always_down 30, TimerTick always_down 40]
           (one_queued 3))) = [''sync_a'']
   \<and> map status (syncQueue
        (run_driver [TimerTick always_down 20, TimerTick always_down 30, TimerTick always_down 40]
           (one_queued 3))) = [StatusRetrying]
   \<and> map attempts (syncQueue
        (run_driver [TimerTick always_down 20, TimerTick always_down 30, TimerTick always_down 40]
           (one_queued 3))) = [3]
   \<and> failedDeliveries ''sync_a''
        (run_driver [TimerTick always_down 20, TimerTick always_down 30, TimerTick always_down 40,
                     TimerTick always_down 50] (one_queued 3)) = 4
   \<and> permanentFailures ''sync_a''
        (run_driver [TimerTick always_down 20, TimerTick always_down 30, TimerTick always_down 40,
                     TimerTick always_down 50] (one_queued 3)) = 1"
  by code_simp

subsection \<open>Priorities over time\<close>

lemma descends_refl: "descends it it"
  by (simp add: descends_def)

lemma descends_trans: "descends c b \<Longrightarrow> descends b a \<Longrightarrow> descends c a"
  by (auto simp: descends_def)

lemma retry_item_descends:
  assumes "1 \<le> priority b"
  shows "descends (retry_item now b) b" "1 \<le> priority (retry_item now b)"
  using assms by (simp_all add: descends_def retry_item_def)

lemma processSyncBatch_descends:
  assumes inv: "\<forall>it \<in> set (syncQueue m). 1 \<le> priority it"
    and mem: "it' \<in> set (syncQueue (fst (processSyncBatch persist now m)))"
  shows "1 \<le> priority it' \<and> (\<exists>it \<in> set (syncQueue m). descends it' it)"
proof -
  from processSyncBatch_queue [of persist now m] obtain ys where ys:
    "syncQueue (fst (processSyncBatch persist now m)) = drop (syncBatchSize m) (syncQueue m) @ ys"
    "set ys \<subseteq> retry_item now ` set (take (syncBatchSize m) (syncQueue m))"
    by blast
  from mem ys(1) consider (waiting) "it' \<in> set (drop (syncBatchSize m) (syncQueue m))"
    | (retried) "it' \<in> set ys" by auto
  then show ?thesis
  proof cases
    case waiting
    then have "it' \<in> set (syncQueue m)" by (rule in_set_dropD)
    with inv show ?thesis by (auto intro: descends_refl)
  next
    case retried
    with ys(2) obtain b where b: "b \<in> set (take (syncBatchSize m) (syncQueue m))"
      "it' = retry_item now b" by auto
    from b(1) have bq: "b \<in> set (syncQueue m)" by (rule in_set_takeD)
    with inv have "1 \<le> priority b" by simp
    from retry_item_descends [OF this, of now] b(2) bq show ?thesis by auto
  qed
qed

lemma driver_step_descends:
  assumes inv: "\<forall>it \<in> set (syncQueue m). 1 \<le> priority it"
    and mem: "it' \<in> set (syncQueue (driver_step ev m))"
  shows "1 \<le> priority it' \<and> (\<exists>it \<in> set (syncQueue m). descends it' it)"
proof (cases ev)
  case (TimerTick persist now)
  with mem inv show ?thesis by (simp add: processSyncBatch_descends)
next
  case (ForceSync persist now)
  with mem have "it' \<in> set (syncQueue (fst (processSyncBatch persist now (say LogManualSync m))))"
    by (simp add: forceSync_def)
  moreover have "\<forall>it \<in> set (syncQueue (say LogManualSync m)). 1 \<le> priority it"
    using inv by (simp add: say_simps)
  ultimately have "1 \<le> priority it'
      \<and> (\<exists>it \<in> set (syncQueue (say LogManualSync m)). descends it' it)"
    by (rule processSyncBatch_descends [rotated])
  then show ?thesis by (simp add: say_simps)
next
  case (EmergencySync persist now)
  let ?m3 = "(say LogEmergency m)\<lparr> syncQueue :=
      array_sort comparePriority (map (\<lambda>item. item\<lparr> priority := 1 \<rparr>) (syncQueue m)) \<rparr>"
  have q3: "set (syncQueue ?m3) = (\<lambda>item. item\<lparr> priority := 1 \<rparr>) ` set (syncQueue m)"
    by (simp add: set_array_sort)
  have inv3: "\<forall>it \<in> set (syncQueue ?m3). 1 \<le> priority it"
    unfolding q3 by simp
  from mem EmergencySync have "it' \<in> set (syncQueue (fst (processSyncBatch persist now ?m3)))"
    by (simp add: activateEmergencySync_def Let_def say_simps)
  with inv3 have "1 \<le> priority it' \<and> (\<exists>it \<in> set (syncQueue ?m3). descends it' it)"
    by (rule processSyncBatch_descends)
  then obtain it3 where it3: "1 \<le> priority it'" "it3 \<in> set (syncQueue ?m3)" "descends it' it3"
    by blast
  from it3(2) q3 obtain it where it: "it \<in> set (syncQueue m)" "it3 = it\<lparr> priority := 1 \<rparr>"
    by auto
  with inv have "descends it3 it" by (simp add: descends_def)
  with it3(3) have "descends it' it" by (rule descends_trans)
  with it3(1) it(1) show ?thesis by blast
qed

lemma run_driver_descends:
  assumes "\<forall>it \<in> set (syncQueue m). 1 \<le> priority it"
    and "it' \<in> set (syncQueue (run_driver evs m))"
  shows "1 \<le> priority it' \<and> (\<exists>it \<in> set (syncQueue m). descends it' it)"
  using assms
proof (induction evs arbitrary: m)
  case Nil
  then show ?case by (auto simp: run_driver_def intro: descends_refl)
next
  case (Cons ev evs)
  let ?m' = "driver_step ev m"
  have inv': "\<forall>it \<in> set (syncQueue ?m'). 1 \<le> priority it"
    using driver_step_descends [OF Cons.prems(1)] by blast
  from Cons.prems(2) have "it' \<in> set (syncQueue (run_driver evs ?m'))"
    by (simp add: run_driver_def)
  from Cons.IH [OF inv' this] obtain mid where mid:
    "1 \<le> priority it'" "mid \<in> set (syncQueue ?m')" "descends it' mid" by blast
  from driver_step_descends [OF Cons.prems(1) mid(2)] obtain it where
    "it \<in> set (syncQueue m)" "descends mid it" by blast
  with mid(1,3) show ?case by (blast intro: descends_trans)
qed

text \<open>
  Claim C8. Priorities of the data model are at least 1. From a queue of such items,
  let the manager go through any sequence of passes (timer or forced, with any delivery
  outcomes) and emergency escalations. Whatever is queued at a later moment was queued
  at every earlier moment, as the same item, with a priority number at least as large:
  over time the priority of an item only decreases or stays, until the item leaves the
  queue.
\<close>

theorem priority_never_relaxes:
  assumes valid: "\<forall>it \<in> set (syncQueue m). 1 \<le> priority it"
    and later: "later \<in> set (syncQueue (run_driver (evs1 @ evs2) m))"
  shows "\<exists>earlier \<in> set (syncQueue (run_driver evs1 m)).
           item_id later = item_id earlier \<and> item_record later = item_record earlier
         \<and> timestamp later = timestamp earlier
         \<and> priority later \<le> priority earlier"
proof -
  let ?m1 = "run_driver evs1 m"
  have inv1: "\<forall>it \<in> set (syncQueue ?m1). 1 \<le> priority it"
    using run_driver_descends [OF valid] by blast
  from later have "later \<in> set (syncQueue (run_driver evs2 ?m1))"
    by (simp add: run_driver_def)
  from run_driver_descends [OF inv1 this] show ?thesis
    by (simp add: descends_def)
qed

theorem priority_never_relaxes_witness:
  "map priority (syncQueue two_queued) = [2, 3]
   \<and> map priority (syncQueue (run_driver [TimerTick always_down 20] two_queued)) = [1, 1]
   \<and> hd (syncQueue (run_driver ([TimerTick always_down 20] @ [EmergencySync always_down 30]) two_queued))
       \<in> set (syncQueue (run_driver ([TimerTick always_down 20] @ [EmergencySync always_down 30]) two_queued))
   \<and> (\<exists>earlier \<in> set (syncQueue (run_driver [TimerTick always_down 20] two_queued)).
         item_id (hd (syncQueue (run_driver ([TimerTick always_down 20] @ [EmergencySync always_down 30]) two_queued)))
           = item_id earlier
       \<and> priority (hd (syncQueue (run_driver ([TimerTick always_down 20] @ [EmergencySync always_down 30]) two_queued)))
           \<le> priority earlier)"
proof -
  let ?evs1 = "[TimerTick always_down 20] :: (nat, unit) driver_event list"
  let ?evs2 = "[EmergencySync always_down 30] :: (nat, unit) driver_event list"
  let ?later = "hd (syncQueue (run_driver (?evs1 @ ?evs2) two_queued))"
  have v: "\<forall>it \<in> set (syncQueue two_queued). 1 \<le> priority it" by code_simp
  have l: "?later \<in> set (syncQueue (run_driver (?evs1 @ ?evs2) two_queued))" by code_simp
  have a: "map priority (syncQueue two_queued) = [2, 3]" by code_simp
  have b: "map priority (syncQueue (run_driver ?evs1 two_queued)) = [1, 1]" by code_simp
  from priority_never_relaxes [OF v l] a b l show ?thesis by blast
qed

subsection \<open>Clearing the queue\<close>

lemma driver_step_on_empty_queue:
  assumes "syncQueue m = []"
  shows "syncQueue (driver_step ev m) = [] \<and> database (driver_step ev m) = database m
       \<and> deliveries (driver_step ev m) = deliveries m"
proof (cases ev)
  case (TimerTick persist now)
  with assms show ?thesis by (simp add: empty_pass deliveries_def)
next
  case (ForceSync persist now)
  have "syncQueue (say LogManualSync m) = []" using assms by (simp add: say_simps)
  from empty_pass [OF this] ForceSync assms show ?thesis
    by (simp add: forceSync_def deliveries_def say_simps)
next
  case (EmergencySync persist now)
  let ?m3 = "(say LogEmergency m)\<lparr> syncQueue :=
      array_sort comparePriority (map (\<lambda>item. item\<lparr> priority := 1 \<rparr>) (syncQueue m)) \<rparr>"
  have "syncQueue ?m3 = []" using assms by (simp add: array_sort_def)
  from empty_pass [OF this] EmergencySync assms show ?thesis
    by (simp add: activateEmergencySync_def Let_def deliveries_def say_simps array_sort_def)
qed

lemma run_driver_on_empty_queue:
  assumes "syncQueue m = []"
  shows "syncQueue (run_driver evs m) = [] \<and> database (run_driver evs m) = database m
       \<and> deliveries (run_driver evs m) = deliveries m"
  using assms
proof (induction evs arbitrary: m)
  case Nil
  then show ?case by (simp add: run_driver_def)
next
  case (Cons ev evs)
  note step = driver_step_on_empty_queue [OF Cons.prems, of ev]
  then have "syncQueue (driver_step ev m) = []" by simp
  from Cons.IH [OF this] step show ?case by (simp add: run_driver_def)
qed

text \<open>
  Claim C10. \<^verbatim>\<open>clearQueue\<close> empties the array whatever it held: the status then
  reports length 0 and no item under any priority. The collection of stored records is
  not touched, the console gets the one line with the number of removed items, and no
  later pass, forced pass or emergency escalation delivers anything or changes the
  collection: what was queued is gone from automatic delivery.
\<close>

theorem clearQueue_discards_all:
  "syncQueue (clearQueue m) = []
   \<and> queueLength (getSyncStatus (clearQueue m)) = 0
   \<and> queuePriorities (getSyncStatus (clearQueue m)) = [1 \<mapsto> 0, 2 \<mapsto> 0, 3 \<mapsto> 0]
   \<and> status_lastSync (getSyncStatus (clearQueue m)) = None
   \<and> database (clearQueue m) = database m
   \<and> console (clearQueue m) = console m @ [LogCleared (length (syncQueue m))]
   \<and> syncQueue (run_driver evs (clearQueue m)) = []
   \<and> database (run_driver evs (clearQueue m)) = database m
   \<and> deliveries (run_driver evs (clearQueue m)) = deliveries m"
proof -
  have e: "syncQueue (clearQueue m) = []"
    by (simp add: clearQueue_def say_simps)
  have st: "queueLength (getSyncStatus (clearQueue m)) = 0"
    "queuePriorities (getSyncStatus (clearQueue m)) = [1 \<mapsto> 0, 2 \<mapsto> 0, 3 \<mapsto> 0]"
    "status_lastSync (getSyncStatus (clearQueue m)) = None"
    using e by (simp_all add: getSyncStatus_def getQueuePriorityBreakdown_def getLastSyncTime_def)
  have d: "database (clearQueue m) = database m"
    and c: "console (clearQueue m) = console m @ [LogCleared (length (syncQueue m))]"
    by (simp_all add: clearQueue_def say_simps)
  from c have dl: "deliveries (clearQueue m) = deliveries m"
    by (simp add: deliveries_def)
  note after = run_driver_on_empty_queue [OF e, of evs]
  from e st d c after dl show ?thesis by simp
qed

theorem clearQueue_discards_all_witness:
  "map priority (syncQueue two_queued) = [2, 3]
   \<and> syncQueue (clearQueue two_queued) = []
   \<and> queueLength (getSyncStatus (clearQueue two_queued)) = 0
   \<and> syncQueue (run_driver [TimerTick always_down 20, ForceSync always_down 30] (clearQueue two_queued)) = []
   \<and> deliveries (run_driver [TimerTick always_down 20, ForceSync always_down 30] (clearQueue two_queued)) = []"
proof -
  have a: "map priority (syncQueue two_queued) = [2, 3]" by code_simp
  have b: "deliveries two_queued = []" by code_simp
  from clearQueue_discards_all [of two_queued "[TimerTick always_down 20, ForceSync always_down 30]"] a b
  show ?thesis by simp
qed

section \<open>Passes that overlap\<close>

subsection \<open>A pass on its own is \<^verbatim>\<open>processSyncBatch\<close>\<close>

lemma process_item_complete_item:
  "process_item persist now item st
   = complete_item persist now item (say (LogSyncing (item_id item)) (fst st), snd st)"
  by (cases "deliver persist item (database (fst st))")
     (simp_all add: process_item_def complete_item_def syncSingleItem_def say_simps Let_def)

text \<open>Once the pass has ended, nothing is left to settle.\<close>

lemma settle_idle:
  assumes "suspended s = []"
  shows "((settle i persist now) ^^ k) s = s"
  using assms by (induction k) (simp_all add: settle_def)

lemma lone_pass_settles:
  "((settle 0 persist now) ^^ Suc (length items))
      \<lparr> manager = say (LogSyncing (item_id item)) m,
        suspended = [\<lparr> current = item, remaining = items, tally = t \<rparr>] \<rparr>
   = \<lparr> manager =
         (case snd (process_batch persist now (item # items) (m, t)) of
            None \<Rightarrow>
              say (LogBatchCompleted
                     (successful (snd (fst (process_batch persist now (item # items) (m, t)))))
                     (failed (snd (fst (process_batch persist now (item # items) (m, t)))))
                     (retried (snd (fst (process_batch persist now (item # items) (m, t))))))
                (fst (fst (process_batch persist now (item # items) (m, t))))
          | Some err \<Rightarrow> fst (fst (process_batch persist now (item # items) (m, t)))),
       suspended = [] \<rparr>"
proof (induction items arbitrary: item m t)
  case Nil
  show ?case
    by (simp add: settle_def Let_def process_item_complete_item split: option.split)
next
  case (Cons n ns)
  let ?r = "process_item persist now item (m, t)"
  let ?s0 = "\<lparr> manager = say (LogSyncing (item_id item)) m,
        suspended = [\<lparr> current = item, remaining = n # ns, tally = t \<rparr>] \<rparr>"
  have unroll: "((settle 0 persist now) ^^ Suc (length (n # ns))) ?s0
      = ((settle 0 persist now) ^^ Suc (length ns)) (settle 0 persist now ?s0)"
    by (simp only: length_Cons funpow_Suc_right comp_apply)
  have r: "?r = complete_item persist now item (say (LogSyncing (item_id item)) m, t)"
    by (simp add: process_item_complete_item)
  show ?case
  proof (cases "snd ?r")
    case None
    have first: "settle 0 persist now ?s0
      = \<lparr> manager = say (LogSyncing (item_id n)) (fst (fst ?r)),
          suspended = [\<lparr> current = n, remaining = ns, tally = snd (fst ?r) \<rparr>] \<rparr>"
      using None unfolding r by (simp add: settle_def Let_def)
    have batch: "process_batch persist now (item # n # ns) (m, t)
        = process_batch persist now (n # ns) (fst (fst ?r), snd (fst ?r))"
      using None by simp
    show ?thesis
      unfolding unroll first batch by (rule Cons.IH)
  next
    case (Some err)
    have first: "settle 0 persist now ?s0
      = \<lparr> manager = fst (fst ?r), suspended = [] \<rparr>"
      using Some unfolding r by (simp add: settle_def Let_def)
    have batch: "process_batch persist now (item # n # ns) (m, t) = (fst ?r, Some err)"
      using Some by simp
    have "((settle 0 persist now) ^^ Suc (length ns)) \<lparr> manager = fst (fst ?r), suspended = [] \<rparr>
        = \<lparr> manager = fst (fst ?r), suspended = [] \<rparr>"
      by (rule settle_idle) simp
    then show ?thesis
      unfolding unroll first batch by simp
  qed
qed

lemma lone_pass_is_processSyncBatch:
  assumes idle: "suspended s = []" and timer: "syncInterval (manager s)"
    and work: "syncQueue (manager s) \<noteq> []" and size: "0 < syncBatchSize (manager s)"
  shows "run_loop (TimerFires #
            replicate (length (take (syncBatchSize (manager s)) (syncQueue (manager s))))
              (Settles 0 persist now)) s
       = s\<lparr> manager := fst (processSyncBatch persist now (manager s)) \<rparr>"
proof -
  let ?m = "manager s"
  let ?batch = "take (syncBatchSize ?m) (syncQueue ?m)"
  let ?m1 = "say (LogProcessingBatch (length ?batch))
               (?m\<lparr> syncQueue := drop (syncBatchSize ?m) (syncQueue ?m) \<rparr>)"
  from work size obtain item items where batch: "?batch = item # items"
    by (cases "syncQueue ?m"; cases "syncBatchSize ?m") auto
  let ?zero = "\<lparr> successful = 0, failed = 0, retried = 0 \<rparr>"
  let ?r = "process_batch persist now (item # items) (?m1, ?zero)"
  have started: "loop_step TimerFires s
      = \<lparr> manager = say (LogSyncing (item_id item)) ?m1,
          suspended = [\<lparr> current = item, remaining = items, tally = ?zero \<rparr>] \<rparr>"
    using idle timer work batch by (simp add: invoke_def Let_def)
  have "run_loop (TimerFires # replicate (length ?batch) (Settles 0 persist now)) s
      = ((settle 0 persist now) ^^ Suc (length items)) (loop_step TimerFires s)"
  proof -
    have eq: "loop_step (Settles 0 persist now) = settle 0 persist now" for persist :: "'a sync_item \<Rightarrow> 'b \<Rightarrow> string + 'b"
      by (rule ext) simp
    show ?thesis
      unfolding run_loop_def batch
      by (simp only: fold.simps comp_apply fold_replicate eq length_Cons)
  qed
  also have "\<dots> = \<lparr> manager =
         (case snd ?r of
            None \<Rightarrow>
              say (LogBatchCompleted (successful (snd (fst ?r))) (failed (snd (fst ?r)))
                     (retried (snd (fst ?r)))) (fst (fst ?r))
          | Some err \<Rightarrow> fst (fst ?r)),
       suspended = [] \<rparr>"
    unfolding started by (rule lone_pass_settles)
  also have "\<dots> = s\<lparr> manager := fst (processSyncBatch persist now ?m) \<rparr>"
    using work idle batch by (simp add: processSyncBatch_def Let_def split: option.split)
  finally show ?thesis .
qed

subsection \<open>No item is held twice\<close>

lemma complete_item_queue:
  "syncQueue (fst (fst (complete_item persist now item st)))
     = syncQueue (fst st) @
         (if isl (deliver persist item (database (fst st))) \<and> attempts item < maxRetries (fst st)
          then [retry_item now item] else [])"
  by (cases "deliver persist item (database (fst st))")
     (simp_all add: complete_item_def handleSyncFailure_fields say_simps Let_def)

lemma complete_item_ids:
  "mset (map item_id (syncQueue (fst (fst (complete_item persist now item st)))))
     \<subseteq># add_mset (item_id item) (mset (map item_id (syncQueue (fst st))))"
  by (simp add: complete_item_queue retry_item_def)

lemma invoke_ids: "all_ids (invoke s) = all_ids s"
proof (cases "syncQueue (manager s) = []")
  case True
  then show ?thesis
    by (simp add: invoke_def all_ids_def held_def stopSyncProcess_def say_def Let_def)
next
  case False
  let ?q = "syncQueue (manager s)" and ?B = "syncBatchSize (manager s)"
  have split: "mset (map item_id ?q) = mset (map item_id (take ?B ?q)) + mset (map item_id (drop ?B ?q))"
    by (simp only: mset_append [symmetric] map_append [symmetric] append_take_drop_id)
  show ?thesis
  proof (cases "take ?B ?q")
    case Nil
    with False split show ?thesis
      by (simp add: invoke_def all_ids_def held_def say_def Let_def)
  next
    case (Cons item items)
    with False split show ?thesis
      by (simp add: invoke_def all_ids_def held_def say_def Let_def)
  qed
qed

lemma held_split:
  assumes "i < length (suspended s)"
  shows "mset (map item_id (held s))
       = mset (map item_id (concat (map (\<lambda>p. current p # remaining p) (take i (suspended s)))))
         + add_mset (item_id (current (suspended s ! i)))
             (mset (map item_id (remaining (suspended s ! i))))
         + mset (map item_id (concat (map (\<lambda>p. current p # remaining p) (drop (Suc i) (suspended s)))))"
proof -
  have "concat (map (\<lambda>p. current p # remaining p) (suspended s))
      = concat (map (\<lambda>p. current p # remaining p)
          (take i (suspended s) @ suspended s ! i # drop (Suc i) (suspended s)))"
    using id_take_nth_drop [OF assms] by simp
  then have "held s = concat (map (\<lambda>p. current p # remaining p) (take i (suspended s)))
      @ (current (suspended s ! i) # remaining (suspended s ! i))
      @ concat (map (\<lambda>p. current p # remaining p) (drop (Suc i) (suspended s)))"
    unfolding held_def by (simp only: map_append list.map concat_append concat.simps append_Cons append_Nil)
  then show ?thesis by simp
qed

lemma settle_ids: "all_ids (settle i persist now s) \<subseteq># all_ids s"
proof (cases "i < length (suspended s)")
  case False
  then show ?thesis by (simp add: settle_def)
next
  case True
  let ?p = "suspended s ! i"
  let ?r = "complete_item persist now (current ?p) (manager s, tally ?p)"
  let ?st = "fst ?r"
  let ?before = "mset (map item_id (concat (map (\<lambda>p. current p # remaining p) (take i (suspended s)))))"
  let ?after = "mset (map item_id (concat (map (\<lambda>p. current p # remaining p) (drop (Suc i) (suspended s)))))"
  have q: "mset (map item_id (syncQueue (fst ?st)))
      \<subseteq># add_mset (item_id (current ?p)) (mset (map item_id (syncQueue (manager s))))"
    using complete_item_ids [of persist now "current ?p" "(manager s, tally ?p)"] by simp
  have old: "all_ids s = mset (map item_id (syncQueue (manager s))) + ?before
      + add_mset (item_id (current ?p)) (mset (map item_id (remaining ?p))) + ?after"
    unfolding all_ids_def held_split [OF True] by simp
  show ?thesis
  proof (cases "snd ?r")
    case (Some err)
    have "held (settle i persist now s)
        = concat (map (\<lambda>p. current p # remaining p) (take i (suspended s)))
          @ concat (map (\<lambda>p. current p # remaining p) (drop (Suc i) (suspended s)))"
      using True Some by (simp add: settle_def held_def Let_def)
    then have "all_ids (settle i persist now s)
        = mset (map item_id (syncQueue (fst ?st))) + ?before + ?after"
      using True Some by (simp add: all_ids_def settle_def Let_def)
    also have "\<dots> \<subseteq># add_mset (item_id (current ?p)) (mset (map item_id (syncQueue (manager s))))
        + ?before + ?after"
      using q by (simp add: subset_mset.add_mono)
    also have "\<dots> \<subseteq># add_mset (item_id (current ?p)) (mset (map item_id (syncQueue (manager s))))
        + ?before + ?after + mset (map item_id (remaining ?p))"
      by (rule mset_subset_eq_add_left)
    also have "\<dots> = all_ids s" unfolding old by simp
    finally show ?thesis .
  next
    case None
    show ?thesis
    proof (cases "remaining ?p")
      case Nil
      have "held (settle i persist now s)
          = concat (map (\<lambda>p. current p # remaining p) (take i (suspended s)))
            @ concat (map (\<lambda>p. current p # remaining p) (drop (Suc i) (suspended s)))"
        using True None Nil by (simp add: settle_def held_def Let_def)
      then have "all_ids (settle i persist now s)
          = mset (map item_id (syncQueue (fst ?st))) + ?before + ?after"
        using True None Nil by (simp add: all_ids_def settle_def Let_def say_def)
      also have "\<dots> \<subseteq># add_mset (item_id (current ?p)) (mset (map item_id (syncQueue (manager s))))
          + ?before + ?after"
        using q by (simp add: subset_mset.add_mono)
      also have "\<dots> = all_ids s" unfolding old Nil by simp
      finally show ?thesis .
    next
      case (Cons item items)
      let ?p' = "\<lparr> current = item, remaining = items, tally = snd ?st \<rparr>"
      have "(suspended s)[i := ?p'] = take i (suspended s) @ ?p' # drop (Suc i) (suspended s)"
        using True by (rule upd_conv_take_nth_drop)
      then have "held (settle i persist now s)
          = concat (map (\<lambda>p. current p # remaining p) (take i (suspended s)))
            @ (item # items)
            @ concat (map (\<lambda>p. current p # remaining p) (drop (Suc i) (suspended s)))"
        using True None Cons by (simp add: settle_def held_def Let_def)
      then have "all_ids (settle i persist now s)
          = mset (map item_id (syncQueue (fst ?st))) + ?before
            + mset (map item_id (remaining ?p)) + ?after"
        using True None Cons by (simp add: all_ids_def settle_def Let_def say_def)
      also have "\<dots> \<subseteq># add_mset (item_id (current ?p)) (mset (map item_id (syncQueue (manager s))))
          + ?before + mset (map item_id (remaining ?p)) + ?after"
        using q by (simp add: subset_mset.add_mono)
      also have "\<dots> = all_ids s" unfolding old by simp
      finally show ?thesis .
    qed
  qed
qed

lemma loop_step_ids: "all_ids (loop_step ev s) \<subseteq># all_ids s"
proof (cases ev)
  case TimerFires
  then show ?thesis by (simp add: invoke_ids)
next
  case ForceSyncCalled
  have "all_ids (s\<lparr> manager := say LogManualSync (manager s) \<rparr>) = all_ids s"
    by (simp add: all_ids_def held_def say_def)
  with ForceSyncCalled show ?thesis by (simp add: invoke_ids)
next
  case (Settles i persist now)
  then show ?thesis by (simp add: settle_ids)
qed

lemma run_loop_ids: "all_ids (run_loop evs s) \<subseteq># all_ids s"
proof (induction evs arbitrary: s)
  case Nil
  then show ?case by (simp add: run_loop_def)
next
  case (Cons ev evs)
  have "all_ids (run_loop evs (loop_step ev s)) \<subseteq># all_ids (loop_step ev s)" by (rule Cons.IH)
  also have "\<dots> \<subseteq># all_ids s" by (rule loop_step_ids)
  finally show ?case by (simp add: run_loop_def)
qed

lemma distinct_iff_count: "distinct ys \<longleftrightarrow> (\<forall>a. count (mset ys) a \<le> 1)"
proof (induction ys)
  case Nil
  then show ?case by simp
next
  case (Cons y ys)
  have "(\<forall>a. count (mset (y # ys)) a \<le> 1) \<longleftrightarrow> count (mset ys) y = 0 \<and> (\<forall>a. count (mset ys) a \<le> 1)"
    by (auto simp: le_Suc_eq)
  also have "\<dots> \<longleftrightarrow> y \<notin> set ys \<and> distinct ys"
    by (simp add: Cons.IH count_mset_0_iff)
  finally show ?case by simp
qed

lemma distinct_submultiset:
  assumes "mset ys \<subseteq># mset xs" "distinct xs"
  shows "distinct ys"
  unfolding distinct_iff_count
proof
  fix a
  have "count (mset ys) a \<le> count (mset xs) a"
    using assms(1) by (rule mset_subset_eq_count)
  also have "\<dots> \<le> 1" using assms(2) by (simp add: distinct_iff_count)
  finally show "count (mset ys) a \<le> 1" .
qed

text \<open>
  Claim C5, as amended. Passes of the manager can overlap: whenever the queue is not
  empty (and the batch size is positive), a call of \<^verbatim>\<open>forceSync\<close>, and likewise a
  tick of the timer, starts a pass of its own, whatever passes are waiting at that
  moment; it neither fails nor joins one of them. What the passes never do is share
  work: if the sync ids of the queued and held items are distinct, they stay distinct
  through every interleaving of timer ticks, forced passes and settled deliveries, so
  no item is held by two passes, or by a pass and the queue. On the client,
  \<^verbatim>\<open>attemptSync\<close> returns at once, with everything unchanged, when its
  \<^verbatim>\<open>isSyncing\<close> flag is set.
\<close>

theorem passes_overlap_on_disjoint_batches:
  assumes ids: "distinct (map item_id (syncQueue (manager s) @ held s))"
  shows "distinct (map item_id (syncQueue (manager (run_loop evs s)) @ held (run_loop evs s)))
       \<and> (syncQueue (manager s) \<noteq> [] \<and> 0 < syncBatchSize (manager s) \<longrightarrow>
            length (suspended (loop_step ForceSyncCalled s)) = Suc (length (suspended s))
          \<and> (syncInterval (manager s) \<longrightarrow>
               length (suspended (loop_step TimerFires s)) = Suc (length (suspended s))))
       \<and> (hook_isSyncing hk \<longrightarrow> attemptSync soldier api now hk db = (hk, idle_pass db))"
proof (intro conjI impI)
  have "mset (map item_id (syncQueue (manager (run_loop evs s)) @ held (run_loop evs s)))
      = all_ids (run_loop evs s)"
    by (simp add: all_ids_def)
  also have "\<dots> \<subseteq># all_ids s" by (rule run_loop_ids)
  also have "\<dots> = mset (map item_id (syncQueue (manager s) @ held s))"
    by (simp add: all_ids_def)
  finally show "distinct (map item_id (syncQueue (manager (run_loop evs s)) @ held (run_loop evs s)))"
    using ids by (rule distinct_submultiset)
next
  assume work: "syncQueue (manager s) \<noteq> [] \<and> 0 < syncBatchSize (manager s)"
  then obtain item items where
    "take (syncBatchSize (manager s)) (syncQueue (manager s)) = item # items"
    by (cases "syncQueue (manager s)"; cases "syncBatchSize (manager s)") auto
  with work
  show "length (suspended (loop_step ForceSyncCalled s)) = Suc (length (suspended s))"
    by (simp add: invoke_def Let_def say_def)
next
  assume work: "syncQueue (manager s) \<noteq> [] \<and> 0 < syncBatchSize (manager s)"
    and timer: "syncInterval (manager s)"
  from work obtain item items where
    "take (syncBatchSize (manager s)) (syncQueue (manager s)) = item # items"
    by (cases "syncQueue (manager s)"; cases "syncBatchSize (manager s)") auto
  with work timer
  show "length (suspended (loop_step TimerFires s)) = Suc (length (suspended s))"
    by (simp add: invoke_def Let_def say_def)
next
  assume "hook_isSyncing hk"
  then show "attemptSync soldier api now hk db = (hk, idle_pass db)"
    by (simp add: attemptSync_def)
qed

theorem passes_overlap_on_disjoint_batches_witness:
  "distinct (map item_id (syncQueue (manager (quiet eleven_queued)) @ held (quiet eleven_queued)))
   \<and> syncQueue (manager (quiet eleven_queued)) \<noteq> []
   \<and> length (suspended (loop_step ForceSyncCalled (quiet eleven_queued))) = 1
   \<and> distinct (map item_id
        (syncQueue (manager (run_loop [TimerFires, ForceSyncCalled, Settles 0 always_down 20]
                      (quiet eleven_queued)))
         @ held (run_loop [TimerFires, ForceSyncCalled, Settles 0 always_down 20]
                      (quiet eleven_queued))))
   \<and> attemptSync None api_accepts 20 (online_hook\<lparr> hook_isSyncing := True \<rparr>) orphan_db
       = (online_hook\<lparr> hook_isSyncing := True \<rparr>, idle_pass orphan_db)"
proof -
  let ?s = "quiet eleven_queued :: (nat, unit) event_loop"
  have d: "distinct (map item_id (syncQueue (manager ?s) @ held ?s))" by code_simp
  have w: "syncQueue (manager ?s) \<noteq> []" by code_simp
  have b: "0 < syncBatchSize (manager ?s)" by code_simp
  have n: "length (suspended ?s) = 0" by code_simp
  have h: "hook_isSyncing (online_hook\<lparr> hook_isSyncing := True \<rparr>)" by simp
  from passes_overlap_on_disjoint_batches [OF d,
      of "[TimerFires, ForceSyncCalled, Settles 0 always_down 20]"
         "online_hook\<lparr> hook_isSyncing := True \<rparr>" None api_accepts 20 orphan_db] w b n h d
  show ?thesis by simp
qed

text \<open>
  Two passes at once: eleven items are queued and no pass is waiting. The timer fires
  and its pass claims ten items and waits for the first delivery; \<^verbatim>\<open>forceSync\<close> is
  called, and a second pass claims the eleventh item and starts delivering it.
\<close>

theorem second_pass_counterexample:
  "suspended (quiet eleven_queued) = []
   \<and> length (suspended (run_loop [TimerFires] (quiet eleven_queued))) = 1
   \<and> map item_record (held (run_loop [TimerFires] (quiet eleven_queued)))
       = [Some 1, Some 2, Some 3, Some 4, Some 5, Some 6, Some 7, Some 8, Some 9, Some 10]
   \<and> length (suspended (run_loop [TimerFires, ForceSyncCalled] (quiet eleven_queued))) = 2
   \<and> map item_record
        (map current (suspended (run_loop [TimerFires, ForceSyncCalled] (quiet eleven_queued))))
       = [Some 1, Some 11]
   \<and> deliveries (manager (run_loop [TimerFires, ForceSyncCalled] (quiet eleven_queued)))
       = [LogSyncing ''a'', LogSyncing ''aaaaaaaaaaa'']"
  by code_simp

end
